theory Spec2Isabelle
  imports Main "HOL-Library.Multiset" "HOL-Library.List_Lexorder" "HOL-Library.Char_ord"
begin

section \<open>Data model\<close>

text \<open>
  The program keeps its data in pandas frames. A row of a frame is modelled as a record
  with one field per column; the column set is the one \<^verbatim>\<open>generate_guests\<close> writes out.
  The two assignment columns hold text in the input (the guests carry the empty string)
  and an integer once \<^verbatim>\<open>create_day2_seating\<close> has written them, so their cells are a
  sum of both; all other columns are text.
\<close>

datatype cell = Str string | Num int

record attendee =
  Table_No :: cell
  Seat_No :: cell
  Name :: string
  Business_Title :: string
  City :: string
  Business_Line :: string
  Sub_Business_Line :: string
  Division :: string
  Job_Level :: string
  Gender :: string
  EWE_Mgmt_Team :: string
  Workshop_Facilitator :: string

text \<open>
  A frame is the list of its rows, in row order. \<^verbatim>\<open>pd.DataFrame(rows)\<close> takes its columns
  from the rows it is given, so the frame built from an empty list has no columns at all,
  and a column lookup such as \<^verbatim>\<open>df['Name']\<close> raises \<^verbatim>\<open>KeyError\<close> on it. The model keeps
  that frame apart from an empty frame whose columns are known.
\<close>

datatype dataframe = NoColumns | Frame "attendee list"

datatype py_error = KeyError string

fun iterrows :: "dataframe \<Rightarrow> attendee list" where
  "iterrows NoColumns = []"
| "iterrows (Frame rs) = rs"

definition pd_DataFrame :: "attendee list \<Rightarrow> dataframe" where
  "pd_DataFrame rs = (if rs = [] then NoColumns else Frame rs)"

text \<open>\<^verbatim>\<open>df['Name']\<close>: the column as a list, or \<^verbatim>\<open>KeyError\<close> when the frame has no columns.\<close>

fun col_Name :: "dataframe \<Rightarrow> py_error + string list" where
  "col_Name NoColumns = Inl (KeyError ''Name'')"
| "col_Name (Frame rs) = Inr (map Name rs)"

text \<open>
  \<^verbatim>\<open>pd.concat([a, b], ignore_index=True)\<close>: the rows of \<open>a\<close> followed by the rows of \<open>b\<close>,
  over the union of the columns.
\<close>

fun pd_concat :: "dataframe \<Rightarrow> dataframe \<Rightarrow> dataframe" where
  "pd_concat NoColumns NoColumns = NoColumns"
| "pd_concat a b = Frame (iterrows a @ iterrows b)"

text \<open>
  \<^verbatim>\<open>df.sample(frac=1).reset_index(drop=True)\<close> returns all rows in a random order. The
  random choice is a parameter of the model: the list \<open>perm\<close> of row positions, in the order
  in which they are drawn. It is a shuffle outcome for a frame of \<open>n\<close> rows when it is a
  permutation of \<open>0..<n\<close>.
\<close>

definition shuffle_outcome :: "nat list \<Rightarrow> nat \<Rightarrow> bool" where
  "shuffle_outcome perm n = (mset perm = mset [0..<n])"

fun sample_frac1 :: "nat list \<Rightarrow> dataframe \<Rightarrow> dataframe" where
  "sample_frac1 perm NoColumns = NoColumns"
| "sample_frac1 perm (Frame rs) = Frame (map (\<lambda>i. rs ! i) perm)"

section \<open>Guest synthesizer\<close>

text \<open>The decimal text of a number, as the f-string \<^verbatim>\<open>f"Guest {i}"\<close> formats it.\<close>

definition digit :: "nat \<Rightarrow> char" where
  "digit d = ''0123456789'' ! d"

fun str_nat :: "nat \<Rightarrow> string" where
  "str_nat n = (if n < 10 then [digit n] else str_nat (n div 10) @ [digit (n mod 10)])"

definition str_int :: "int \<Rightarrow> string" where
  "str_int i = (if i < 0 then CHR ''-'' # str_nat (nat (- i)) else str_nat (nat i))"

definition guest :: "int \<Rightarrow> attendee" where
  "guest i =
     \<lparr> Table_No = Str '''',
       Seat_No = Str '''',
       Name = ''Guest '' @ str_int i,
       Business_Title = ''Guest'',
       City = '''',
       Business_Line = '''',
       Sub_Business_Line = '''',
       Division = '''',
       Job_Level = '''',
       Gender = '''',
       EWE_Mgmt_Team = '''',
       Workshop_Facilitator = ''N'' \<rparr>"

text \<open>
  \<^verbatim>\<open>generate_guests\<close> reads \<^verbatim>\<open>self.num_guests\<close> only; the loop runs over
  \<^verbatim>\<open>range(1, num_guests + 1)\<close>, which is empty when \<open>num_guests < 1\<close>.
\<close>

definition generate_guests :: "int \<Rightarrow> dataframe" where
  "generate_guests num_guests = pd_DataFrame (map guest [1..num_guests])"

record generator =
  attendees_df :: dataframe
  num_guests :: int
  num_tables :: int
  table_size :: int
  guests :: dataframe

definition SeatingPlanGenerator :: "dataframe \<Rightarrow> int \<Rightarrow> int \<Rightarrow> int \<Rightarrow> generator" where
  "SeatingPlanGenerator df ng nt ts =
     \<lparr> attendees_df = df, num_guests = ng, num_tables = nt, table_size = ts,
       guests = generate_guests ng \<rparr>"

section \<open>Seating assignor\<close>

text \<open>
  \<^verbatim>\<open>tables = defaultdict(list)\<close> keeps its keys in the order in which they were first
  used, and the second loop of \<^verbatim>\<open>create_day2_seating\<close> walks \<^verbatim>\<open>tables.items()\<close> in that
  order: the dictionary is an association list. \<^verbatim>\<open>tables[k].append(v)\<close> extends the list
  stored under \<open>k\<close>, creating the entry at the end when the key is new.
\<close>

type_synonym 'a tables = "(int \<times> 'a list) list"

fun dd_append :: "'a tables \<Rightarrow> int \<Rightarrow> 'a \<Rightarrow> 'a tables" where
  "dd_append [] k v = [(k, [v])]"
| "dd_append ((k', vs) # t) k v =
     (if k' = k then (k', vs @ [v]) # t else (k', vs) # dd_append t k v)"

text \<open>\<^verbatim>\<open>tables[k]\<close> read after the append (the key exists then; a missing key reads as \<open>[]\<close>).\<close>

definition dd_get :: "'a tables \<Rightarrow> int \<Rightarrow> 'a list" where
  "dd_get t k = (case map_of t k of None \<Rightarrow> [] | Some vs \<Rightarrow> vs)"

text \<open>
  The dealing loop, with its state: the dictionary and \<^verbatim>\<open>table_number\<close>.
  \<^verbatim>\<open>
  for index, attendee in combined_df.iterrows():
      tables[table_number].append(attendee)
      if len(tables[table_number]) == self.table_size:
          table_number += 1
      if table_number > self.num_tables:
          table_number = 1
  \<close>
  The loop never looks into a row, so it is written for any type of element.
\<close>

fun deal :: "int \<Rightarrow> int \<Rightarrow> 'a list \<Rightarrow> 'a tables \<times> int \<Rightarrow> 'a tables \<times> int" where
  "deal nt ts [] s = s"
| "deal nt ts (a # as) (tables, table_number) =
     (let tables1 = dd_append tables table_number a;
          tn1 = (if int (length (dd_get tables1 table_number)) = ts
                 then table_number + 1 else table_number);
          tn2 = (if tn1 > nt then 1 else tn1)
      in deal nt ts as (tables1, tn2))"

text \<open>
  The inner loop of the second phase: each member is copied, and the copy gets the table
  number and its seat number, counted from 1.
\<close>

definition seat_members :: "int \<Rightarrow> attendee list \<Rightarrow> attendee list" where
  "seat_members table_no members =
     map (\<lambda>(seat_no, member). member\<lparr>Table_No := Num table_no, Seat_No := Num (int seat_no)\<rparr>)
       (enumerate 1 members)"

definition create_day2_seating :: "generator \<Rightarrow> nat list \<Rightarrow> dataframe" where
  "create_day2_seating self perm =
     (let combined_df = pd_concat (attendees_df self) (guests self);
          shuffled_df = sample_frac1 perm combined_df;
          tables = fst (deal (num_tables self) (table_size self) (iterrows shuffled_df) ([], 1));
          day2_seating = concat (map (\<lambda>(table_no, members). seat_members table_no members) tables)
      in pd_DataFrame day2_seating)"

subsection \<open>Verification\<close>

text \<open>
  \<^verbatim>\<open>day2_df[day2_df.duplicated(subset=['Name'], keep=False)]\<close>: the rows whose name occurs
  more than once in the frame, in row order. A frame without rows gives a frame without
  rows.
\<close>

definition duplicated_rows :: "dataframe \<Rightarrow> attendee list" where
  "duplicated_rows df =
     (let rs = iterrows df in filter (\<lambda>r. 1 < count_list (map Name rs) (Name r)) rs)"

text \<open>\<^verbatim>\<open>Series.unique()\<close>: the distinct values in the order of their first occurrence.\<close>

fun unique_from :: "'a list \<Rightarrow> 'a list \<Rightarrow> 'a list" where
  "unique_from seen [] = []"
| "unique_from seen (x # xs) =
     (if x \<in> set seen then unique_from seen xs else x # unique_from (x # seen) xs)"

definition unique :: "'a list \<Rightarrow> 'a list" where
  "unique xs = unique_from [] xs"

text \<open>\<^verbatim>\<open>sep.join(xs)\<close>\<close>

fun join :: "string \<Rightarrow> string list \<Rightarrow> string" where
  "join sep [] = []"
| "join sep [x] = x"
| "join sep (x # y # ys) = x @ sep @ join sep (y # ys)"

text \<open>
  \<^verbatim>\<open>verify_seating_plan\<close>. The order in which Python iterates over the set
  \<^verbatim>\<open>missing_names\<close> depends on the hashes of the strings; it is the parameter \<open>set_iter\<close>.
  The two column lookups raise \<^verbatim>\<open>KeyError\<close> on a frame without columns.
\<close>

definition verify_seating_plan ::
  "generator \<Rightarrow> (string set \<Rightarrow> string list) \<Rightarrow> dataframe \<Rightarrow> py_error + bool \<times> string" where
  "verify_seating_plan self set_iter day2_df =
     (let duplicates = duplicated_rows day2_df in
      if duplicates \<noteq> [] then
        Inr (False, ''Duplicate entries found: '' @ join '', '' (unique (map Name duplicates)))
      else
        case col_Name (attendees_df self) of
          Inl e \<Rightarrow> Inl e
        | Inr day1 \<Rightarrow>
            (case col_Name day2_df of
               Inl e \<Rightarrow> Inl e
             | Inr day2 \<Rightarrow>
                 (let missing_names = set day1 - set day2 in
                  if missing_names \<noteq> {} then
                    Inr (False, ''Missing participants from Day 1: '' @
                                join '', '' (set_iter missing_names))
                  else Inr (True, ''Seating plan is valid.''))))"

section \<open>The request handler\<close>




section \<open>The seating assignor over a store of row objects\<close>

text \<open>
  Whether \<^verbatim>\<open>create_day2_seating\<close> changes the roster is a question of sharing, which the
  value model above cannot ask. Here the row objects live in a store, a row object is an
  address, a frame is the list of its row objects, and the assignments
  \<^verbatim>\<open>member["Table No."] = table_no\<close> and \<^verbatim>\<open>member["Seat No."] = seat_no\<close> update the store
  in place. pandas documents \<^verbatim>\<open>concat\<close>, \<^verbatim>\<open>sample\<close> and \<^verbatim>\<open>iterrows\<close> as returning new
  objects; the model lets them hand on the very row objects of their input, the least
  favourable case, so that the only copy it relies on is the \<^verbatim>\<open>member.copy()\<close> that the
  source writes out.
\<close>

type_synonym addr = nat

type_synonym store = "attendee list"

text \<open>\<^verbatim>\<open>member.copy()\<close>: a new object with the same fields, at the next free address.\<close>

definition copy_row :: "store \<Rightarrow> addr \<Rightarrow> store \<times> addr" where
  "copy_row h a = (h @ [h ! a], length h)"

definition set_Table_No :: "store \<Rightarrow> addr \<Rightarrow> int \<Rightarrow> store" where
  "set_Table_No h a v = h[a := (h ! a)\<lparr>Table_No := Num v\<rparr>]"

definition set_Seat_No :: "store \<Rightarrow> addr \<Rightarrow> int \<Rightarrow> store" where
  "set_Seat_No h a v = h[a := (h ! a)\<lparr>Seat_No := Num v\<rparr>]"

text \<open>
  The two loops that build \<^verbatim>\<open>day2_seating\<close>:
  \<^verbatim>\<open>
  for table_no, members in tables.items():
      for seat_no, member in enumerate(members, start=1):
          member = member.copy()
          member["Table No."] = table_no
          member["Seat No."] = seat_no
          day2_seating.append(member)
  \<close>
\<close>

fun seat_loop :: "int \<Rightarrow> nat \<Rightarrow> addr list \<Rightarrow> store \<times> addr list \<Rightarrow> store \<times> addr list" where
  "seat_loop table_no seat_no [] s = s"
| "seat_loop table_no seat_no (member # members) (h, day2_seating) =
     (let (h1, m) = copy_row h member;
          h2 = set_Table_No h1 m table_no;
          h3 = set_Seat_No h2 m (int seat_no)
      in seat_loop table_no (Suc seat_no) members (h3, day2_seating @ [m]))"

fun table_loop :: "addr tables \<Rightarrow> store \<times> addr list \<Rightarrow> store \<times> addr list" where
  "table_loop [] s = s"
| "table_loop ((table_no, members) # t) s = table_loop t (seat_loop table_no 1 members s)"

text \<open>
  \<^verbatim>\<open>create_day2_seating\<close> over the store: the row objects of the roster and of the guests,
  the configuration and the shuffle outcome go in, the new store and the row objects of the
  plan come out.
\<close>

definition create_day2_seating_st ::
  "store \<Rightarrow> addr list \<Rightarrow> addr list \<Rightarrow> int \<Rightarrow> int \<Rightarrow> nat list \<Rightarrow> store \<times> addr list" where
  "create_day2_seating_st h attendees guest_rows nt ts perm =
     (let combined = attendees @ guest_rows;
          shuffled = map (\<lambda>i. combined ! i) perm;
          tables = fst (deal nt ts shuffled ([], 1))
      in table_loop tables (h, []))"

section \<open>Auxiliary notions for the statements\<close>

text \<open>
  The members the dealing loop has put on table \<open>k\<close> once it has run over \<open>xs\<close>, in closed
  form, for \<open>N \<ge> 1\<close> tables of \<open>S \<ge> 1\<close> seats: table \<open>k\<close> holds the \<open>k\<close>-th block of \<open>S\<close>
  elements, and table 1 holds in addition everything after the first \<open>N * S\<close> elements.
\<close>

definition chunk :: "nat \<Rightarrow> nat \<Rightarrow> 'a list \<Rightarrow> int \<Rightarrow> 'a list" where
  "chunk N S xs k =
     (if k = 1 then take S xs @ drop (N * S) xs
      else if 2 \<le> k \<and> k \<le> int N then take S (drop (nat (k - 1) * S) xs)
      else [])"

text \<open>The rows in the order in which the dealing loop receives them.\<close>

definition dealt :: "generator \<Rightarrow> nat list \<Rightarrow> attendee list" where
  "dealt self perm = iterrows (sample_frac1 perm (pd_concat (attendees_df self) (guests self)))"

text \<open>The occupants of table \<open>t\<close> in a plan, in plan order.\<close>

definition occupants :: "int \<Rightarrow> dataframe \<Rightarrow> attendee list" where
  "occupants t df = filter (\<lambda>r. Table_No r = Num t) (iterrows df)"

text \<open>A row without its assignment: the two assignment columns blanked.\<close>

definition unassigned :: "attendee \<Rightarrow> attendee" where
  "unassigned r = r\<lparr>Table_No := Str [], Seat_No := Str []\<rparr>"

section \<open>Example data\<close>

text \<open>A roster row as the first day's sheet would give it, with the given name.\<close>

definition person :: "string \<Rightarrow> attendee" where
  "person name =
     \<lparr> Table_No = Num 3,
       Seat_No = Num 4,
       Name = name,
       Business_Title = ''Analyst'',
       City = ''Leeds'',
       Business_Line = ''Retail'',
       Sub_Business_Line = ''Cards'',
       Division = ''North'',
       Job_Level = ''L2'',
       Gender = ''F'',
       EWE_Mgmt_Team = ''N'',
       Workshop_Facilitator = ''N'' \<rparr>"

text \<open>A roster of twenty rows with the pairwise distinct names \<open>P1\<close>, ..., \<open>P20\<close>.\<close>

definition roster20 :: "attendee list" where
  "roster20 = map (\<lambda>i. person (CHR ''P'' # str_int i)) [1..20]"

text \<open>
  One possible iteration order of a Python set of strings, for the examples: the sorted one.
\<close>

definition sorted_iter :: "string set \<Rightarrow> string list" where
  "sorted_iter S = sorted_list_of_set S"

section \<open>Properties of the guest synthesizer\<close>

declare str_nat.simps [simp del]

lemma str_nat_small: "n < 10 \<Longrightarrow> str_nat n = [digit n]"
  by (subst str_nat.simps) simp

lemma str_nat_big: "\<not> n < 10 \<Longrightarrow> str_nat n = str_nat (n div 10) @ [digit (n mod 10)]"
  by (subst str_nat.simps) simp

lemma str_nat_nonempty: "str_nat n \<noteq> []"
  by (cases "n < 10") (simp_all add: str_nat_small str_nat_big)

lemma digit_inj: "a < 10 \<Longrightarrow> b < 10 \<Longrightarrow> digit a = digit b \<Longrightarrow> a = b"
proof -
  assume a: "a < 10" and b: "b < 10" and e: "digit a = digit b"
  have d: "distinct ''0123456789''" by simp
  have "length ''0123456789'' = 10" by simp
  with a b e d show "a = b"
    unfolding digit_def using nth_eq_iff_index_eq [OF d, of a b] by simp
qed

lemma str_nat_inj: "str_nat m = str_nat n \<Longrightarrow> m = n"
proof (induction m arbitrary: n rule: str_nat.induct)
  case (1 m)
  show ?case
  proof (cases "m < 10")
    case small_m: True
    show ?thesis
    proof (cases "n < 10")
      case True
      with small_m "1.prems" show ?thesis
        by (simp add: str_nat_small digit_inj)
    next
      case False
      with small_m "1.prems" show ?thesis
        using str_nat_nonempty [of "n div 10"] by (simp add: str_nat_small str_nat_big)
    qed
  next
    case big_m: False
    show ?thesis
    proof (cases "n < 10")
      case True
      with big_m "1.prems" show ?thesis
        using str_nat_nonempty [of "m div 10"] by (simp add: str_nat_small str_nat_big)
    next
      case False
      with big_m "1.prems" have q: "str_nat (m div 10) = str_nat (n div 10)"
        and r: "digit (m mod 10) = digit (n mod 10)"
        by (simp_all add: str_nat_big)
      from "1.IH" [OF big_m q] have "m div 10 = n div 10" .
      moreover from r have "m mod 10 = n mod 10"
        by (intro digit_inj) simp_all
      ultimately show ?thesis
        by (metis div_mult_mod_eq)
    qed
  qed
qed

lemma str_int_inj_pos: "0 \<le> i \<Longrightarrow> 0 \<le> j \<Longrightarrow> str_int i = str_int j \<Longrightarrow> i = j"
  using str_nat_inj [of "nat i" "nat j"] by (simp add: str_int_def)

lemma Name_guest_inj: "0 \<le> i \<Longrightarrow> 0 \<le> j \<Longrightarrow> Name (guest i) = Name (guest j) \<Longrightarrow> i = j"
  by (simp add: guest_def str_int_inj_pos)

lemma iterrows_pd_DataFrame [simp]: "iterrows (pd_DataFrame rs) = rs"
  by (simp add: pd_DataFrame_def)

lemma iterrows_generate_guests: "iterrows (generate_guests n) = map guest [1..n]"
  by (simp add: generate_guests_def)

lemma distinct_guest_names: "distinct (map Name (iterrows (generate_guests n)))"
proof -
  have "inj_on (\<lambda>i. Name (guest i)) (set [1..n])"
    by (rule inj_onI) (auto intro: Name_guest_inj)
  then show ?thesis
    by (simp add: iterrows_generate_guests distinct_map comp_def)
qed

section \<open>The dictionary and the dealing loop\<close>

lemma dd_get_Nil [simp]: "dd_get [] k = []"
  by (simp add: dd_get_def)

lemma dd_get_Cons [simp]: "dd_get ((j, vs) # t) k = (if j = k then vs else dd_get t k)"
  by (simp add: dd_get_def)

lemma dd_get_append: "dd_get (dd_append t k v) j = (if j = k then dd_get t k @ [v] else dd_get t j)"
  by (induction t) auto

lemma keys_dd_append: "fst ` set (dd_append t k v) = insert k (fst ` set t)"
proof (induction t)
  case Nil
  show ?case by simp
next
  case (Cons p t)
  obtain j vs where p: "p = (j, vs)" by (cases p)
  show ?case
    unfolding p using Cons.IH by (cases "j = k") auto
qed

lemma distinct_dd_append: "distinct (map fst t) \<Longrightarrow> distinct (map fst (dd_append t k v))"
  by (induction t) (auto simp: keys_dd_append)

lemma mset_dd_append:
  "mset (concat (map snd (dd_append t k v))) = add_mset v (mset (concat (map snd t)))"
  by (induction t) auto

lemma dd_append_map:
  "dd_append (map (apsnd (map f)) t) k (f v) = map (apsnd (map f)) (dd_append t k v)"
  by (induction t) auto

lemma dd_get_map: "dd_get (map (apsnd (map f)) t) k = map f (dd_get t k)"
  by (induction t) auto

lemma deal_append: "deal nt ts (xs @ ys) s = deal nt ts ys (deal nt ts xs s)"
proof (induction xs arbitrary: s)
  case Nil
  show ?case by simp
next
  case (Cons a xs)
  show ?case by (cases s) (simp add: Let_def Cons.IH)
qed

lemma deal_snoc:
  "deal nt ts xs s = (t, tn) \<Longrightarrow>
   deal nt ts (xs @ [x]) s =
     (dd_append t tn x,
      if (if int (length (dd_get t tn)) + 1 = ts then tn + 1 else tn) > nt then 1
      else (if int (length (dd_get t tn)) + 1 = ts then tn + 1 else tn))"
  by (simp add: deal_append Let_def dd_get_append)

lemma deal_distinct:
  "distinct (map fst t) \<Longrightarrow> distinct (map fst (fst (deal nt ts xs (t, tn))))"
  by (induction xs arbitrary: t tn) (simp_all add: Let_def distinct_dd_append)

lemma deal_mset:
  "mset (concat (map snd (fst (deal nt ts xs (t, tn))))) = mset (concat (map snd t)) + mset xs"
  by (induction xs arbitrary: t tn) (simp_all add: Let_def mset_dd_append)

lemma deal_map:
  "deal nt ts (map f xs) (map (apsnd (map f)) t, tn) =
   map_prod (map (apsnd (map f))) id (deal nt ts xs (t, tn))"
  by (induction xs arbitrary: t tn) (simp_all add: Let_def dd_append_map dd_get_map)

lemma interval_unique:
  fixes j m S n :: nat
  assumes "j * S \<le> n" "n < (j + 1) * S" "m * S \<le> n" "n < (m + 1) * S"
  shows "m = j"
proof (rule ccontr)
  assume "m \<noteq> j"
  then consider "m + 1 \<le> j" | "j + 1 \<le> m" by linarith
  then show False
  proof cases
    case 1
    then have "(m + 1) * S \<le> j * S" by (rule mult_le_mono1)
    with assms show False by linarith
  next
    case 2
    then have "(j + 1) * S \<le> m * S" by (rule mult_le_mono1)
    with assms show False by linarith
  qed
qed

lemma take_drop_snoc:
  "take S (drop a (xs @ [x])) =
     take S (drop a xs) @ (if a \<le> length xs \<and> length xs < a + S then [x] else [])"
  by (auto simp: not_less)

lemma chunk_snoc_filling:
  assumes n: "length xs < N * S" and j: "j < N" "j * S \<le> length xs" "length xs < (j + 1) * S"
  shows "chunk N S (xs @ [x]) k = (if k = int j + 1 then chunk N S xs k @ [x] else chunk N S xs k)"
proof -
  consider "k = 1" | "2 \<le> k" "k \<le> int N" | "k < 1 \<or> int N < k" by linarith
  then show ?thesis
  proof cases
    case 1
    have "j = 0 \<longleftrightarrow> length xs < S"
    proof
      assume "j = 0" with j show "length xs < S" by simp
    next
      assume "length xs < S"
      with j(2) show "j = 0" by (cases j) simp_all
    qed
    with 1 n show ?thesis
      by (auto simp: chunk_def)
  next
    case 2
    define m where "m = nat (k - 1)"
    from 2 have k: "k = int m + 1" and m: "1 \<le> m" by (simp_all add: m_def)
    have c: "chunk N S ys k = take S (drop (m * S) ys)" for ys :: "'a list"
      unfolding chunk_def m_def using 2 by simp
    have "(m * S \<le> length xs \<and> length xs < m * S + S) \<longleftrightarrow> m = j"
      using interval_unique [of j S "length xs" m] j by auto
    moreover have "k = int j + 1 \<longleftrightarrow> m = j"
      using k by simp
    ultimately show ?thesis
      by (simp only: c take_drop_snoc) simp
  next
    case 3
    with j show ?thesis by (auto simp: chunk_def)
  qed
qed

lemma chunk_snoc_overflow:
  assumes N: "1 \<le> N" and n: "N * S \<le> length xs"
  shows "chunk N S (xs @ [x]) k = (if k = 1 then chunk N S xs k @ [x] else chunk N S xs k)"
proof -
  have S: "S \<le> length xs"
    using n N by (cases N) simp_all
  show ?thesis
  proof (cases "2 \<le> k \<and> k \<le> int N")
    case True
    define m where "m = nat (k - 1)"
    have c: "chunk N S ys k = take S (drop (m * S) ys)" for ys :: "'a list"
      unfolding chunk_def m_def using True by simp
    from True have "m + 1 \<le> N" unfolding m_def by linarith
    then have "(m + 1) * S \<le> N * S" by (rule mult_le_mono1)
    with n have "\<not> length xs < m * S + S" by simp
    moreover from True have "k \<noteq> 1" by simp
    ultimately show ?thesis
      by (simp only: c take_drop_snoc) simp
  next
    case False
    with n S show ?thesis by (auto simp: chunk_def)
  qed
qed

lemma length_chunk_cur:
  assumes "1 \<le> N" "1 \<le> S"
    and "if length xs < N * S then j < N \<and> j * S \<le> length xs \<and> length xs < (j + 1) * S else j = 0"
  shows "length (chunk N S xs (int j + 1)) =
           (if length xs < N * S then length xs - j * S else S + (length xs - N * S))"
proof (cases "length xs < N * S")
  case True
  with assms(3) have j: "j < N" "j * S \<le> length xs" "length xs < (j + 1) * S" by simp_all
  show ?thesis
  proof (cases "j = 0")
    case True
    with j \<open>length xs < N * S\<close> show ?thesis by (simp add: chunk_def)
  next
    case False
    with j have "2 \<le> int j + 1 \<and> int j + 1 \<le> int N" by simp
    then have "chunk N S xs (int j + 1) = take S (drop (j * S) xs)"
      by (simp add: chunk_def)
    with j True show ?thesis by simp
  qed
next
  case False
  with assms(3) have "j = 0" by simp
  from False assms(1) have "S \<le> length xs" by (cases N) simp_all
  with False \<open>j = 0\<close> show ?thesis by (simp add: chunk_def)
qed

lemma deal_chunks:
  assumes N: "1 \<le> N" and S: "1 \<le> S"
  shows "\<exists>t j. deal (int N) (int S) xs ([], 1) = (t, int j + 1) \<and>
               (\<forall>k. dd_get t k = chunk N S xs k) \<and>
               (if length xs < N * S then j < N \<and> j * S \<le> length xs \<and> length xs < (j + 1) * S
                else j = 0)"
proof (induction xs rule: rev_induct)
  case Nil
  have "deal (int N) (int S) [] ([], 1) = ([], int 0 + 1)" by simp
  moreover have "\<forall>k. dd_get [] k = chunk N S [] k" by (simp add: chunk_def)
  moreover have "0 < N * S" using N S by simp
  ultimately show ?case using N S by (intro exI [of _ "[]"] exI [of _ 0]) simp
next
  case (snoc x xs)
  then obtain t j where d: "deal (int N) (int S) xs ([], 1) = (t, int j + 1)"
    and c: "\<And>k. dd_get t k = chunk N S xs k"
    and j: "if length xs < N * S then j < N \<and> j * S \<le> length xs \<and> length xs < (j + 1) * S
            else j = 0"
    by blast
  let ?n = "length xs"
  have len: "length (dd_get t (int j + 1)) =
           (if ?n < N * S then ?n - j * S else S + (?n - N * S))"
    unfolding c using N S j by (rule length_chunk_cur)
  note step = deal_snoc [OF d, of x]
  show ?case
  proof (cases "?n < N * S")
    case True
    with j have jN: "j < N" and lo: "j * S \<le> ?n" and hi: "?n < (j + 1) * S" by simp_all
    from True len have len': "length (dd_get t (int j + 1)) = ?n - j * S" by simp
    have upd: "\<forall>k. dd_get (dd_append t (int j + 1) x) k = chunk N S (xs @ [x]) k"
      by (simp add: dd_get_append c chunk_snoc_filling [OF True jN lo hi])
    define m where "m = j * S"
    have m: "(j + 1) * S = m + S" by (simp add: m_def)
    have "int (?n - m) + 1 = int S \<longleftrightarrow> Suc ?n = m + S"
      using lo unfolding m_def [symmetric] by linarith
    then have full: "int (length (dd_get t (int j + 1))) + 1 = int S \<longleftrightarrow> Suc ?n = (j + 1) * S"
      unfolding len' m m_def [symmetric] .
    show ?thesis
    proof (cases "Suc ?n = (j + 1) * S")
      case eq: True
      show ?thesis
      proof (cases "j + 1 = N")
        case True
        with eq full step have "deal (int N) (int S) (xs @ [x]) ([], 1) =
            (dd_append t (int j + 1) x, int 0 + 1)" by simp
        moreover from True eq have "\<not> length (xs @ [x]) < N * S" by simp
        ultimately show ?thesis using upd by (intro exI conjI) auto
      next
        case False
        with jN have j2: "j + 2 \<le> N" by simp
        then have "(j + 2) * S \<le> N * S" by (rule mult_le_mono1)
        with eq S have lt: "length (xs @ [x]) < N * S" by simp
        from False jN eq full step have "deal (int N) (int S) (xs @ [x]) ([], 1) =
            (dd_append t (int j + 1) x, int (j + 1) + 1)" by simp
        moreover from eq S have "(j + 1) * S \<le> length (xs @ [x]) \<and> length (xs @ [x]) < (j + 1 + 1) * S"
          by simp
        ultimately show ?thesis using upd lt j2
          by (intro exI [of _ "dd_append t (int j + 1) x"] exI [of _ "j + 1"]) simp
      qed
    next
      case neq: False
      with hi have hi': "Suc ?n < (j + 1) * S" by simp
      from jN have "(j + 1) * S \<le> N * S" by (intro mult_le_mono1) simp
      with hi' have lt: "length (xs @ [x]) < N * S" by simp
      from neq full step jN have "deal (int N) (int S) (xs @ [x]) ([], 1) =
            (dd_append t (int j + 1) x, int j + 1)" by simp
      then show ?thesis using upd lt jN lo hi'
        by (intro exI [of _ "dd_append t (int j + 1) x"] exI [of _ j]) simp
    qed
  next
    case False
    with j have j0: "j = 0" by simp
    from False have ge: "N * S \<le> ?n" by simp
    from False len have len': "length (dd_get t (int j + 1)) = S + (?n - N * S)" by simp
    have upd: "\<forall>k. dd_get (dd_append t 1 x) k = chunk N S (xs @ [x]) k"
      using c j0 by (simp add: dd_get_append chunk_snoc_overflow [OF N ge])
    from len' j0 have "int (length (dd_get t 1)) + 1 \<noteq> int S" by simp
    with step j0 N have "deal (int N) (int S) (xs @ [x]) ([], 1) = (dd_append t 1 x, int 0 + 1)"
      by simp
    moreover from ge have "\<not> length (xs @ [x]) < N * S" by simp
    ultimately show ?thesis using upd by (intro exI conjI) auto
  qed
qed

lemma deal_single_table:
  assumes "nt \<le> 1 \<or> ts \<le> 0"
  shows "\<exists>t. deal nt ts xs ([], 1) = (t, 1) \<and> (\<forall>k. dd_get t k = (if k = 1 then xs else []))"
proof (induction xs rule: rev_induct)
  case Nil
  show ?case by simp
next
  case (snoc x xs)
  then obtain t where d: "deal nt ts xs ([], 1) = (t, 1)"
    and c: "\<And>k. dd_get t k = (if k = 1 then xs else [])"
    by blast
  from assms have "deal nt ts (xs @ [x]) ([], 1) = (dd_append t 1 x, 1)"
    using deal_snoc [OF d, of x] by (auto simp: c)
  moreover have "\<forall>k. dd_get (dd_append t 1 x) k = (if k = 1 then xs @ [x] else [])"
    by (simp add: dd_get_append c)
  ultimately show ?case by blast
qed

lemma deal_members:
  "dd_get (fst (deal nt ts xs ([], 1))) k =
     (if 1 \<le> nt \<and> 1 \<le> ts then chunk (nat nt) (nat ts) xs k
      else if k = 1 then xs else [])"
proof (cases "1 \<le> nt \<and> 1 \<le> ts")
  case True
  then have "1 \<le> nat nt" "1 \<le> nat ts" by linarith+
  from deal_chunks [OF this, of xs] True show ?thesis by auto
next
  case False
  then have "nt \<le> 1 \<or> ts \<le> 0" by linarith
  from deal_single_table [OF this, of xs] False show ?thesis by auto
qed

lemma iterrows_pd_concat [simp]: "iterrows (pd_concat a b) = iterrows a @ iterrows b"
  by (cases a; cases b) simp_all

lemma iterrows_sample_frac1:
  "iterrows (sample_frac1 perm df) = (case df of NoColumns \<Rightarrow> [] | Frame rs \<Rightarrow> map (\<lambda>i. rs ! i) perm)"
  by (cases df) simp_all

lemma mset_shuffle:
  assumes "shuffle_outcome perm (length rs)"
  shows "mset (map (\<lambda>i. rs ! i) perm) = mset rs"
proof -
  have "mset (map (\<lambda>i. rs ! i) perm) = image_mset (\<lambda>i. rs ! i) (mset perm)" by simp
  also have "\<dots> = image_mset (\<lambda>i. rs ! i) (mset [0..<length rs])"
    using assms by (simp add: shuffle_outcome_def)
  also have "\<dots> = mset (map (\<lambda>i. rs ! i) [0..<length rs])" by simp
  also have "\<dots> = mset rs" by (simp add: map_nth)
  finally show ?thesis .
qed

lemma length_shuffle: "shuffle_outcome perm n \<Longrightarrow> length perm = n"
  unfolding shuffle_outcome_def using mset_eq_length [of perm "[0..<n]"] by simp

lemma mset_dealt:
  assumes "shuffle_outcome perm (length (iterrows (attendees_df g)) + length (iterrows (guests g)))"
  shows "mset (dealt g perm) = mset (iterrows (attendees_df g) @ iterrows (guests g))"
proof (cases "pd_concat (attendees_df g) (guests g)")
  case NoColumns
  then have "iterrows (attendees_df g) @ iterrows (guests g) = []"
    by (metis iterrows.simps(1) iterrows_pd_concat)
  with NoColumns show ?thesis by (simp add: dealt_def)
next
  case (Frame rs)
  then have rs: "rs = iterrows (attendees_df g) @ iterrows (guests g)"
    by (metis iterrows.simps(2) iterrows_pd_concat)
  with assms have "shuffle_outcome perm (length rs)" by simp
  then have "mset (map (\<lambda>i. rs ! i) perm) = mset rs" by (rule mset_shuffle)
  with Frame rs show ?thesis by (simp add: dealt_def)
qed

lemma length_seat_members [simp]: "length (seat_members k ms) = length ms"
  by (simp add: seat_members_def)

lemma seat_members_Nil [simp]: "seat_members k ms = [] \<longleftrightarrow> ms = []"
  using length_seat_members [of k ms] by (metis length_0_conv)

lemma nth_seat_members:
  "i < length ms \<Longrightarrow>
   seat_members k ms ! i = (ms ! i)\<lparr>Table_No := Num k, Seat_No := Num (int i + 1)\<rparr>"
  by (simp add: seat_members_def nth_enumerate_eq)

lemma Table_No_seat_members: "r \<in> set (seat_members k ms) \<Longrightarrow> Table_No r = Num k"
  by (auto simp: seat_members_def)

lemma Seat_No_seat_members:
  "map Seat_No (seat_members k ms) = map (\<lambda>i. Num (int i)) [1..<Suc (length ms)]"
  by (rule nth_equalityI) (simp_all add: nth_seat_members del: upt_Suc)

lemma unassigned_seat_members: "map unassigned (seat_members k ms) = map unassigned ms"
  by (rule nth_equalityI) (simp_all add: nth_seat_members unassigned_def)

lemma Name_seat_members: "map Name (seat_members k ms) = map Name ms"
  by (rule nth_equalityI) (simp_all add: nth_seat_members)

lemma filter_seated:
  "filter (\<lambda>r. Table_No r = Num k) (seat_members j ms) = (if j = k then seat_members j ms else [])"
  by (auto simp: filter_empty_conv filter_id_conv dest: Table_No_seat_members)

lemma occupants_tables:
  "distinct (map fst t) \<Longrightarrow>
   filter (\<lambda>r. Table_No r = Num k) (concat (map (\<lambda>(table_no, members). seat_members table_no members) t)) =
     seat_members k (dd_get t k)"
proof (induction t)
  case Nil
  show ?case by (simp add: seat_members_def)
next
  case (Cons p t)
  obtain j ms where p: "p = (j, ms)" by (cases p)
  from Cons.prems p have dist: "distinct (map fst t)" and j: "j \<notin> fst ` set t" by simp_all
  show ?case
  proof (cases "j = k")
    case True
    with j have "dd_get t k = []"
      by (simp add: dd_get_def map_of_eq_None_iff [THEN iffD2])
    with Cons.IH [OF dist] True p show ?thesis
      by (simp add: filter_seated)
  next
    case False
    with Cons.IH [OF dist] p show ?thesis
      by (simp add: filter_seated)
  qed
qed

lemma unassigned_tables:
  "map unassigned (concat (map (\<lambda>(table_no, members). seat_members table_no members) t)) =
   map unassigned (concat (map snd t))"
  by (induction t) (auto simp: unassigned_seat_members)

lemma iterrows_create:
  "iterrows (create_day2_seating g perm) =
     concat (map (\<lambda>(table_no, members). seat_members table_no members)
       (fst (deal (num_tables g) (table_size g) (dealt g perm) ([], 1))))"
  by (simp add: create_day2_seating_def dealt_def Let_def)

lemma occupants_create:
  "occupants k (create_day2_seating g perm) =
     seat_members k (dd_get (fst (deal (num_tables g) (table_size g) (dealt g perm) ([], 1))) k)"
  unfolding occupants_def iterrows_create
  by (rule occupants_tables) (simp add: deal_distinct)

lemma unassigned_create:
  "mset (map unassigned (iterrows (create_day2_seating g perm))) =
   mset (map unassigned (dealt g perm))"
proof -
  have "mset (map unassigned (iterrows (create_day2_seating g perm))) =
        image_mset unassigned (mset (concat (map snd
          (fst (deal (num_tables g) (table_size g) (dealt g perm) ([], 1))))))"
    by (simp add: iterrows_create unassigned_tables)
  also have "\<dots> = image_mset unassigned (mset (dealt g perm))"
    by (simp only: deal_mset) simp
  finally show ?thesis by simp
qed

lemma nth_upto_int: "0 \<le> k \<Longrightarrow> i + k \<le> j \<Longrightarrow> [i..j] ! nat k = i + k"
  by (simp add: nth_upto)

section \<open>Claims about the guest synthesizer\<close>

text \<open>
  C10. For a non-negative count, \<^verbatim>\<open>generate_guests\<close> returns exactly that many rows; the row
  number \<open>i\<close> (counted from 1) is named \<open>Guest i\<close>, has the business title \<open>Guest\<close>, the
  facilitator flag \<open>N\<close> and every other column blank; the names are pairwise distinct; for
  the count 0 there are no rows. The function is total and has no error result, and as a
  function of the count alone it is deterministic.
\<close>

theorem generate_guests_labels:
  assumes "0 \<le> cnt"
  shows "length (iterrows (generate_guests cnt)) = nat cnt
       \<and> (\<forall>i. 1 \<le> i \<and> i \<le> cnt \<longrightarrow>
            iterrows (generate_guests cnt) ! nat (i - 1) =
              \<lparr> Table_No = Str '''', Seat_No = Str '''', Name = ''Guest '' @ str_int i,
                Business_Title = ''Guest'', City = '''', Business_Line = '''',
                Sub_Business_Line = '''', Division = '''', Job_Level = '''', Gender = '''',
                EWE_Mgmt_Team = '''', Workshop_Facilitator = ''N'' \<rparr>)
       \<and> distinct (map Name (iterrows (generate_guests cnt)))
       \<and> (cnt = 0 \<longrightarrow> iterrows (generate_guests cnt) = [])"
proof (intro conjI allI impI)
  show "length (iterrows (generate_guests cnt)) = nat cnt"
    using assms by (simp add: iterrows_generate_guests)
next
  fix i assume i: "1 \<le> i \<and> i \<le> cnt"
  then have "[1..cnt] ! nat (i - 1) = 1 + (i - 1)"
    by (intro nth_upto_int) simp_all
  moreover from i have "nat (i - 1) < length [1..cnt]" by simp
  ultimately have "iterrows (generate_guests cnt) ! nat (i - 1) = guest i"
    by (simp add: iterrows_generate_guests)
  then show "iterrows (generate_guests cnt) ! nat (i - 1) =
              \<lparr> Table_No = Str '''', Seat_No = Str '''', Name = ''Guest '' @ str_int i,
                Business_Title = ''Guest'', City = '''', Business_Line = '''',
                Sub_Business_Line = '''', Division = '''', Job_Level = '''', Gender = '''',
                EWE_Mgmt_Team = '''', Workshop_Facilitator = ''N'' \<rparr>"
    by (simp add: guest_def)
next
  show "distinct (map Name (iterrows (generate_guests cnt)))"
    by (rule distinct_guest_names)
next
  assume "cnt = 0"
  then show "iterrows (generate_guests cnt) = []"
    by (simp add: iterrows_generate_guests)
qed

lemma str_int_12: "str_int 12 = ''12''"
  by (simp add: str_int_def str_nat.simps digit_def)

text \<open>The same at the count 12, with the two-digit label written out.\<close>

theorem generate_guests_labels_witness:
  "(0::int) \<le> 12
   \<and> length (iterrows (generate_guests 12)) = 12
   \<and> iterrows (generate_guests 12) ! 11 =
        \<lparr> Table_No = Str '''', Seat_No = Str '''', Name = ''Guest 12'',
          Business_Title = ''Guest'', City = '''', Business_Line = '''',
          Sub_Business_Line = '''', Division = '''', Job_Level = '''', Gender = '''',
          EWE_Mgmt_Team = '''', Workshop_Facilitator = ''N'' \<rparr>
   \<and> distinct (map Name (iterrows (generate_guests 12)))"
proof -
  have h: "(0::int) \<le> 12" by simp
  note t = generate_guests_labels [OF h]
  from t have "iterrows (generate_guests 12) ! nat (12 - 1) =
        \<lparr> Table_No = Str '''', Seat_No = Str '''', Name = ''Guest '' @ str_int 12,
          Business_Title = ''Guest'', City = '''', Business_Line = '''',
          Sub_Business_Line = '''', Division = '''', Job_Level = '''', Gender = '''',
          EWE_Mgmt_Team = '''', Workshop_Facilitator = ''N'' \<rparr>"
    by (elim conjE allE [of _ 12]) simp
  with t show ?thesis by (simp add: str_int_12)
qed

section \<open>Properties of the plan as a whole\<close>

lemma length_dealt:
  assumes "shuffle_outcome perm (length (iterrows (attendees_df g)) + length (iterrows (guests g)))"
  shows "length (dealt g perm) = length (iterrows (attendees_df g)) + length (iterrows (guests g))"
  using mset_eq_length [OF mset_dealt [OF assms]] by simp

lemma length_create: "length (iterrows (create_day2_seating g perm)) = length (dealt g perm)"
  using mset_eq_length [OF unassigned_create [of g perm]] by simp

lemma generator_fields [simp]:
  "attendees_df (SeatingPlanGenerator df ng nt ts) = df"
  "num_guests (SeatingPlanGenerator df ng nt ts) = ng"
  "num_tables (SeatingPlanGenerator df ng nt ts) = nt"
  "table_size (SeatingPlanGenerator df ng nt ts) = ts"
  "guests (SeatingPlanGenerator df ng nt ts) = generate_guests ng"
  by (simp_all add: SeatingPlanGenerator_def)

lemma length_generate_guests [simp]: "length (iterrows (generate_guests ng)) = nat ng"
  by (simp add: iterrows_generate_guests)

lemma deal_positions:
  "dd_get (fst (deal nt ts xs ([], 1))) k =
     map (\<lambda>i. xs ! i) (dd_get (fst (deal nt ts [0..<length xs] ([], 1))) k)"
proof -
  have "deal nt ts (map (\<lambda>i. xs ! i) [0..<length xs]) (map (apsnd (map (\<lambda>i. xs ! i))) [], 1) =
        map_prod (map (apsnd (map (\<lambda>i. xs ! i)))) id (deal nt ts [0..<length xs] ([], 1))"
    by (rule deal_map)
  then have "deal nt ts xs ([], 1) =
        map_prod (map (apsnd (map (\<lambda>i. xs ! i)))) id (deal nt ts [0..<length xs] ([], 1))"
    by (simp add: map_nth)
  then show ?thesis
    by (simp add: dd_get_map)
qed

lemma take_upt_min: "take m [i..<n] = [i..<min (i + m) n]"
  by (cases "i + m \<le> n") (simp_all add: min_def)

lemma sorted_chunk_positions:
  assumes "1 \<le> N"
  shows "sorted_wrt (<) (chunk N S [0..<n] k)"
proof -
  define c where "c = N * S"
  have "S \<le> c" unfolding c_def using assms by (cases N) simp_all
  then show ?thesis
    unfolding chunk_def c_def [symmetric]
    by (auto simp: sorted_wrt_append take_upt_min simp del: take_upt)
qed

lemma sorted_positions:
  "sorted_wrt (<) (dd_get (fst (deal nt ts [0..<n] ([], 1))) k)"
proof (cases "1 \<le> nt \<and> 1 \<le> ts")
  case True
  then have "1 \<le> nat nt" by linarith
  with True show ?thesis
    by (simp add: deal_members sorted_chunk_positions)
next
  case False
  then show ?thesis by (auto simp: deal_members)
qed

lemma positions_in_range:
  "set (dd_get (fst (deal nt ts [0..<n] ([], 1))) k) \<subseteq> {..<n}"
proof -
  have "set (dd_get t k) \<subseteq> set (concat (map snd t))" for t :: "nat tables"
    by (induction t) (auto split: if_splits)
  from this [of "fst (deal nt ts [0..<n] ([], 1))"]
  have "set (dd_get (fst (deal nt ts [0..<n] ([], 1))) k) \<subseteq>
        set_mset (mset (concat (map snd (fst (deal nt ts [0..<n] ([], 1))))))"
    by simp
  also have "\<dots> = set [0..<n]"
    by (simp only: deal_mset) simp
  finally show ?thesis by auto
qed

lemma row_on_some_table:
  assumes "r \<in> set (iterrows (create_day2_seating g perm))"
  shows "\<exists>k. r \<in> set (occupants k (create_day2_seating g perm))"
proof -
  from assms obtain k ms where "r \<in> set (seat_members k ms)"
    by (auto simp: iterrows_create)
  then have "Table_No r = Num k" by (rule Table_No_seat_members)
  with assms show ?thesis by (auto simp: occupants_def)
qed

section \<open>Claims about the seating assignor\<close>

text \<open>
  C3. For every roster, every configuration with a non-negative guest count and every
  shuffle outcome, the plan returned by \<^verbatim>\<open>create_day2_seating\<close> has exactly
  \<open>len(R) + num_guests\<close> rows, and apart from the two assignment columns its rows are, as a
  multiset, the rows of the roster together with the synthesized guests: no row is lost or
  gained by the concatenation, the shuffle and the dealing.
\<close>

theorem plan_keeps_all_rows:
  assumes "0 \<le> ng"
    and "shuffle_outcome perm (length (iterrows df) + nat ng)"
  shows "int (length (iterrows (create_day2_seating (SeatingPlanGenerator df ng nt ts) perm))) =
           int (length (iterrows df)) + ng
       \<and> mset (map unassigned (iterrows (create_day2_seating (SeatingPlanGenerator df ng nt ts) perm))) =
           mset (map unassigned (iterrows df @ iterrows (generate_guests ng)))"
proof -
  let ?g = "SeatingPlanGenerator df ng nt ts"
  from assms(2)
  have sh: "shuffle_outcome perm (length (iterrows (attendees_df ?g)) + length (iterrows (guests ?g)))"
    by simp
  have "length (iterrows (create_day2_seating ?g perm)) = length (iterrows df) + nat ng"
    using length_dealt [OF sh] by (simp add: length_create)
  moreover have "mset (map unassigned (iterrows (create_day2_seating ?g perm))) =
      mset (map unassigned (iterrows df @ iterrows (generate_guests ng)))"
    using mset_dealt [OF sh] unassigned_create [of ?g perm]
    by (metis generator_fields(1) generator_fields(5) mset_map)
  ultimately show ?thesis using assms(1) by simp
qed

text \<open>Three roster rows and two guests on two tables of two seats: five rows come back.\<close>

theorem plan_keeps_all_rows_witness:
  "(0::int) \<le> 2
   \<and> shuffle_outcome [4, 2, 0, 1, 3] (length (iterrows (Frame [person ''Ann'', person ''Bob'', person ''Cy''])) + nat 2)
   \<and> int (length (iterrows (create_day2_seating
        (SeatingPlanGenerator (Frame [person ''Ann'', person ''Bob'', person ''Cy'']) 2 2 2)
        [4, 2, 0, 1, 3]))) = 5"
proof -
  have h1: "(0::int) \<le> 2" by simp
  have h2: "shuffle_outcome [4, 2, 0, 1, 3]
              (length (iterrows (Frame [person ''Ann'', person ''Bob'', person ''Cy''])) + nat 2)"
    unfolding shuffle_outcome_def by code_simp
  from plan_keeps_all_rows [OF h1 h2, of 2 2] h1 h2 show ?thesis by simp
qed

lemma occupants_positions:
  "occupants k (create_day2_seating g perm) =
     seat_members k (map (\<lambda>i. dealt g perm ! i)
       (dd_get (fst (deal (num_tables g) (table_size g) [0..<length (dealt g perm)] ([], 1))) k))"
  by (simp only: occupants_create deal_positions [of _ _ "dealt g perm"])

text \<open>
  C5. For every roster, configuration and shuffle outcome, the seat numbers of the occupants
  of any table of the plan are \<open>1, 2, ..., k\<close> in plan order, where \<open>k\<close> is the number of
  occupants of that table: no gap and no repeat. They follow the order of dealing: the
  occupants of the table are the rows at the positions of the shuffled sequence that the
  dealing loop put on that table, and these positions increase with the seat number.
\<close>

theorem seat_numbers_contiguous:
  "map Seat_No (occupants t (create_day2_seating g perm)) =
     map (\<lambda>i. Num (int i)) [1..<Suc (length (occupants t (create_day2_seating g perm)))]
   \<and> occupants t (create_day2_seating g perm) =
       seat_members t (map (\<lambda>i. dealt g perm ! i)
         (dd_get (fst (deal (num_tables g) (table_size g) [0..<length (dealt g perm)] ([], 1))) t))
   \<and> sorted_wrt (<)
       (dd_get (fst (deal (num_tables g) (table_size g) [0..<length (dealt g perm)] ([], 1))) t)"
proof (intro conjI)
  show "map Seat_No (occupants t (create_day2_seating g perm)) =
     map (\<lambda>i. Num (int i)) [1..<Suc (length (occupants t (create_day2_seating g perm)))]"
    by (simp only: occupants_create Seat_No_seat_members length_seat_members)
next
  show "occupants t (create_day2_seating g perm) =
       seat_members t (map (\<lambda>i. dealt g perm ! i)
         (dd_get (fst (deal (num_tables g) (table_size g) [0..<length (dealt g perm)] ([], 1))) t))"
    by (rule occupants_positions)
next
  show "sorted_wrt (<)
       (dd_get (fst (deal (num_tables g) (table_size g) [0..<length (dealt g perm)] ([], 1))) t)"
    by (rule sorted_positions)
qed

text \<open>
  Three roster rows and two guests on two tables of two seats: the fifth row dealt wraps to
  table 1 and takes seat 3 there.
\<close>

theorem seat_numbers_contiguous_witness:
  "map Seat_No (occupants 1 (create_day2_seating
      (SeatingPlanGenerator (Frame [person ''Ann'', person ''Bob'', person ''Cy'']) 2 2 2)
      [4, 2, 0, 1, 3])) = [Num 1, Num 2, Num 3]
   \<and> map Name (occupants 1 (create_day2_seating
      (SeatingPlanGenerator (Frame [person ''Ann'', person ''Bob'', person ''Cy'']) 2 2 2)
      [4, 2, 0, 1, 3])) = [''Guest 2'', ''Cy'', ''Guest 1'']"
proof -
  let ?g = "SeatingPlanGenerator (Frame [person ''Ann'', person ''Bob'', person ''Cy'']) 2 2 2"
  let ?perm = "[4, 2, 0, 1, 3]"
  note t = seat_numbers_contiguous [of 1 ?g ?perm]
  have n: "length (occupants 1 (create_day2_seating ?g ?perm)) = 3"
    by code_simp
  from t have "map Seat_No (occupants 1 (create_day2_seating ?g ?perm)) =
      map (\<lambda>i. Num (int i)) [1..<Suc (length (occupants 1 (create_day2_seating ?g ?perm)))]"
    by (rule conjunct1)
  also have "\<dots> = [Num 1, Num 2, Num 3]"
    unfolding n by code_simp
  finally have seats: "map Seat_No (occupants 1 (create_day2_seating ?g ?perm)) =
      [Num 1, Num 2, Num 3]" .
  from t have "occupants 1 (create_day2_seating ?g ?perm) =
       seat_members 1 (map (\<lambda>i. dealt ?g ?perm ! i)
         (dd_get (fst (deal (num_tables ?g) (table_size ?g) [0..<length (dealt ?g ?perm)] ([], 1))) 1))"
    by blast
  moreover have "map Name (seat_members 1 (map (\<lambda>i. dealt ?g ?perm ! i)
         (dd_get (fst (deal (num_tables ?g) (table_size ?g) [0..<length (dealt ?g ?perm)] ([], 1))) 1))) =
       [''Guest 2'', ''Cy'', ''Guest 1'']"
    by code_simp
  ultimately have "map Name (occupants 1 (create_day2_seating ?g ?perm)) =
      [''Guest 2'', ''Cy'', ''Guest 1'']"
    by simp
  with seats show ?thesis by simp
qed

text \<open>
  C7. When the rows outnumber the seats, \<open>len(R) + num_guests > num_tables * table_size\<close>,
  every row dealt after the first \<open>num_tables * table_size\<close> rows is put on table 1: the
  members of table 1 end with all of these rows, in the order of dealing. No other table
  holds more than \<open>table_size\<close> rows. When \<open>num_tables \<ge> 1\<close> and \<open>table_size \<ge> 1\<close>, table 1
  holds the first \<open>table_size\<close> rows followed by the overflow, and each of the tables
  \<open>2..num_tables\<close> holds exactly \<open>table_size\<close> rows.
\<close>

theorem overflow_goes_to_table_1:
  assumes "0 \<le> ng"
    and "shuffle_outcome perm (length (iterrows df) + nat ng)"
    and "int (length (iterrows df)) + ng > nt * ts"
  shows "(\<exists>pre. occupants 1 (create_day2_seating (SeatingPlanGenerator df ng nt ts) perm) =
            seat_members 1 (pre @ drop (nat (nt * ts)) (dealt (SeatingPlanGenerator df ng nt ts) perm)))
       \<and> (\<forall>k. k \<noteq> 1 \<longrightarrow>
            length (occupants k (create_day2_seating (SeatingPlanGenerator df ng nt ts) perm)) \<le> nat ts)
       \<and> (1 \<le> nt \<and> 1 \<le> ts \<longrightarrow>
            occupants 1 (create_day2_seating (SeatingPlanGenerator df ng nt ts) perm) =
              seat_members 1 (take (nat ts) (dealt (SeatingPlanGenerator df ng nt ts) perm) @
                              drop (nat (nt * ts)) (dealt (SeatingPlanGenerator df ng nt ts) perm))
          \<and> (\<forall>k. 2 \<le> k \<and> k \<le> nt \<longrightarrow>
                length (occupants k (create_day2_seating (SeatingPlanGenerator df ng nt ts) perm)) =
                  nat ts))"
proof -
  let ?g = "SeatingPlanGenerator df ng nt ts"
  let ?xs = "dealt ?g perm"
  have occ: "occupants k (create_day2_seating ?g perm) =
      seat_members k (if 1 \<le> nt \<and> 1 \<le> ts then chunk (nat nt) (nat ts) ?xs k
                      else if k = 1 then ?xs else [])" for k
    by (simp add: occupants_create deal_members)
  have len: "length ?xs = length (iterrows df) + nat ng"
    using length_dealt [of perm ?g] assms(2) by simp
  show ?thesis
  proof (cases "1 \<le> nt \<and> 1 \<le> ts")
    case True
    then have cap: "nat (nt * ts) = nat nt * nat ts"
      by (simp add: nat_mult_distrib)
    have "nat c < a + nat ng" if "c < int a + ng" "0 \<le> c" for c :: int and a :: nat
      using that assms(1) by linarith
    moreover from True have "0 \<le> nt * ts" by simp
    ultimately have over: "nat nt * nat ts < length ?xs"
      unfolding cap [symmetric] using assms(3) len by simp
    have one: "occupants 1 (create_day2_seating ?g perm) =
        seat_members 1 (take (nat ts) ?xs @ drop (nat (nt * ts)) ?xs)"
      using True by (simp add: occ chunk_def cap)
    have others: "length (occupants k (create_day2_seating ?g perm)) \<le> nat ts" if "k \<noteq> 1" for k
      using True that by (simp add: occ chunk_def)
    have exact: "length (occupants k (create_day2_seating ?g perm)) = nat ts"
      if k: "2 \<le> k \<and> k \<le> nt" for k
    proof -
      from k have "nat (k - 1) + 1 \<le> nat nt" by linarith
      then have "(nat (k - 1) + 1) * nat ts \<le> nat nt * nat ts" by (rule mult_le_mono1)
      with over have "nat (k - 1) * nat ts + nat ts \<le> length ?xs" by simp
      with True k show ?thesis
        by (simp add: occ chunk_def)
    qed
    from one others exact show ?thesis by blast
  next
    case False
    then have one: "occupants 1 (create_day2_seating ?g perm) = seat_members 1 ?xs"
      by (auto simp: occ)
    have "?xs = take (nat (nt * ts)) ?xs @ drop (nat (nt * ts)) ?xs" by simp
    with one have "\<exists>pre. occupants 1 (create_day2_seating ?g perm) =
            seat_members 1 (pre @ drop (nat (nt * ts)) ?xs)"
      by metis
    moreover have "length (occupants k (create_day2_seating ?g perm)) \<le> nat ts" if "k \<noteq> 1" for k
      using False that by (auto simp: occ)
    ultimately show ?thesis using False by blast
  qed
qed

text \<open>
  The same example: five rows for four seats. Table 1 ends with the fifth row dealt, and
  table 2 keeps exactly two rows.
\<close>

theorem overflow_goes_to_table_1_witness:
  "(0::int) \<le> 2
   \<and> shuffle_outcome [4, 2, 0, 1, 3]
        (length (iterrows (Frame [person ''Ann'', person ''Bob'', person ''Cy''])) + nat 2)
   \<and> int (length (iterrows (Frame [person ''Ann'', person ''Bob'', person ''Cy'']))) + 2 > 2 * 2
   \<and> map Name (occupants 1 (create_day2_seating
        (SeatingPlanGenerator (Frame [person ''Ann'', person ''Bob'', person ''Cy'']) 2 2 2)
        [4, 2, 0, 1, 3])) = [''Guest 2'', ''Cy'', ''Guest 1'']
   \<and> length (occupants 2 (create_day2_seating
        (SeatingPlanGenerator (Frame [person ''Ann'', person ''Bob'', person ''Cy'']) 2 2 2)
        [4, 2, 0, 1, 3])) = 2"
proof -
  let ?df = "Frame [person ''Ann'', person ''Bob'', person ''Cy'']"
  let ?g = "SeatingPlanGenerator ?df 2 2 2"
  let ?perm = "[4, 2, 0, 1, 3]"
  have h1: "(0::int) \<le> 2" by simp
  have h2: "shuffle_outcome ?perm (length (iterrows ?df) + nat 2)"
    unfolding shuffle_outcome_def by code_simp
  have h3: "int (length (iterrows ?df)) + 2 > 2 * 2" by simp
  note t = overflow_goes_to_table_1 [OF h1 h2 h3]
  from t have "occupants 1 (create_day2_seating ?g ?perm) =
      seat_members 1 (take (nat 2) (dealt ?g ?perm) @ drop (nat (2 * 2)) (dealt ?g ?perm))"
    by simp
  moreover have "map Name (seat_members 1 (take (nat 2) (dealt ?g ?perm) @
      drop (nat (2 * 2)) (dealt ?g ?perm))) = [''Guest 2'', ''Cy'', ''Guest 1'']"
    by code_simp
  ultimately have one: "map Name (occupants 1 (create_day2_seating ?g ?perm)) =
      [''Guest 2'', ''Cy'', ''Guest 1'']"
    by simp
  from t have two: "length (occupants 2 (create_day2_seating ?g ?perm)) = 2"
    by simp
  from h1 h2 h3 one two show ?thesis by blast
qed

lemma occupants_members:
  "occupants k (create_day2_seating g perm) =
     seat_members k (if 1 \<le> num_tables g \<and> 1 \<le> table_size g
                     then chunk (nat (num_tables g)) (nat (table_size g)) (dealt g perm) k
                     else if k = 1 then dealt g perm else [])"
  by (simp add: occupants_create deal_members)

lemma chunk_within_capacity:
  assumes "length xs \<le> N * S"
  shows "length (chunk N S xs k) \<le> S"
    and "chunk N S xs k \<noteq> [] \<Longrightarrow> 1 \<le> k \<and> k \<le> int N"
proof -
  from assms show "length (chunk N S xs k) \<le> S"
    by (simp add: chunk_def)
  assume ne: "chunk N S xs k \<noteq> []"
  show "1 \<le> k \<and> k \<le> int N"
  proof (cases "k = 1")
    case True
    have "xs \<noteq> []" using ne True unfolding chunk_def by auto
    then have "0 < length xs" by simp
    with assms have "0 < N * S" by linarith
    then have "0 < N" by simp
    with True show ?thesis by simp
  next
    case False
    with ne show ?thesis by (simp add: chunk_def split: if_splits)
  qed
qed

lemma length_chunk_overflow:
  assumes "1 \<le> N" and "N * S < length xs"
  shows "length (chunk N S xs 1) = S + (length xs - N * S)"
    and "2 \<le> k \<and> k \<le> int N \<Longrightarrow> length (chunk N S xs k) = S"
    and "k < 1 \<or> int N < k \<Longrightarrow> chunk N S xs k = []"
proof -
  from assms have "S \<le> length xs" by (cases N) simp_all
  then show "length (chunk N S xs 1) = S + (length xs - N * S)"
    by (simp add: chunk_def)
  show "chunk N S xs k = []" if "k < 1 \<or> int N < k"
    using that assms(1) by (auto simp: chunk_def)
  show "length (chunk N S xs k) = S" if k: "2 \<le> k \<and> k \<le> int N"
  proof -
    from k have "nat (k - 1) + 1 \<le> N" by linarith
    then have "(nat (k - 1) + 1) * S \<le> N * S" by (rule mult_le_mono1)
    with assms(2) have "nat (k - 1) * S + S \<le> length xs" by simp
    with k show ?thesis by (simp add: chunk_def)
  qed
qed

lemma seat_members_elem:
  assumes "r \<in> set (seat_members k ms)"
  shows "\<exists>i<length ms. Table_No r = Num k \<and> Seat_No r = Num (int i + 1)"
proof -
  from assms obtain i where "i < length (seat_members k ms)" "seat_members k ms ! i = r"
    by (auto simp: in_set_conv_nth)
  then have "i < length ms \<and> Table_No r = Num k \<and> Seat_No r = Num (int i + 1)"
    by (auto simp: nth_seat_members)
  then show ?thesis by blast
qed

text \<open>
  C4. When the rows fit, \<open>len(R) + num_guests \<le> num_tables * table_size\<close>, with
  non-negative counts in the configuration, every table of the plan has at most
  \<open>table_size\<close> occupants, and every row of the plan carries a table number in
  \<open>[1, num_tables]\<close> and a seat number in \<open>[1, table_size]\<close>.
\<close>

theorem plan_within_capacity:
  assumes "0 \<le> ng" and "0 \<le> nt" and "0 \<le> ts"
    and "shuffle_outcome perm (length (iterrows df) + nat ng)"
    and "int (length (iterrows df)) + ng \<le> nt * ts"
  shows "(\<forall>t. int (length (occupants t (create_day2_seating (SeatingPlanGenerator df ng nt ts) perm))) \<le> ts)
       \<and> (\<forall>r \<in> set (iterrows (create_day2_seating (SeatingPlanGenerator df ng nt ts) perm)).
            \<exists>t s. Table_No r = Num t \<and> 1 \<le> t \<and> t \<le> nt \<and>
                  Seat_No r = Num s \<and> 1 \<le> s \<and> s \<le> ts)"
proof -
  let ?g = "SeatingPlanGenerator df ng nt ts"
  let ?xs = "dealt ?g perm"
  let ?plan = "create_day2_seating ?g perm"
  have len: "length ?xs = length (iterrows df) + nat ng"
    using length_dealt [of perm ?g] assms(4) by simp
  show ?thesis
  proof (cases "1 \<le> nt \<and> 1 \<le> ts")
    case True
    then have cap: "nat (nt * ts) = nat nt * nat ts"
      by (simp add: nat_mult_distrib)
    have "a + nat ng \<le> nat c" if "int a + ng \<le> c" for c :: int and a :: nat
      using that assms(1) by linarith
    from this [OF assms(5)] len have fit: "length ?xs \<le> nat nt * nat ts"
      unfolding cap [symmetric] by simp
    have occ: "occupants k ?plan = seat_members k (chunk (nat nt) (nat ts) ?xs k)" for k
      using True by (simp add: occupants_members)
    have size: "int (length (occupants k ?plan)) \<le> ts" for k
    proof -
      have "length (chunk (nat nt) (nat ts) ?xs k) \<le> nat ts"
        by (rule chunk_within_capacity(1) [OF fit])
      with True have "int (length (chunk (nat nt) (nat ts) ?xs k)) \<le> ts" by linarith
      then show ?thesis by (simp add: occ)
    qed
    have row: "\<exists>t s. Table_No r = Num t \<and> 1 \<le> t \<and> t \<le> nt \<and> Seat_No r = Num s \<and> 1 \<le> s \<and> s \<le> ts"
      if r: "r \<in> set (iterrows ?plan)" for r
    proof -
      from row_on_some_table [OF r] obtain k where k: "r \<in> set (seat_members k (chunk (nat nt) (nat ts) ?xs k))"
        by (auto simp: occ)
      then have "chunk (nat nt) (nat ts) ?xs k \<noteq> []" by (auto simp: seat_members_def)
      from chunk_within_capacity(2) [OF fit this] True have kr: "1 \<le> k \<and> k \<le> nt" by simp
      from seat_members_elem [OF k] obtain i where i: "i < length (chunk (nat nt) (nat ts) ?xs k)"
        and tr: "Table_No r = Num k" and sr: "Seat_No r = Num (int i + 1)"
        by blast
      from i chunk_within_capacity(1) [OF fit, of k] True have "int i + 1 \<le> ts" by linarith
      with kr tr sr show ?thesis by auto
    qed
    from size row show ?thesis by blast
  next
    case False
    with assms(2,3) have "nt * ts = 0" by auto
    with assms(1,5) len have "length ?xs = 0" by linarith
    then have "?xs = []" by simp
    then have "iterrows ?plan = []"
      using length_create [of ?g perm] by simp
    then show ?thesis using assms(3) by (simp add: occupants_def)
  qed
qed

text \<open>Three roster rows and two guests on three tables of two seats.\<close>

theorem plan_within_capacity_witness:
  "(0::int) \<le> 2 \<and> (0::int) \<le> 3 \<and> (0::int) \<le> 2
   \<and> shuffle_outcome [4, 2, 0, 1, 3]
        (length (iterrows (Frame [person ''Ann'', person ''Bob'', person ''Cy''])) + nat 2)
   \<and> int (length (iterrows (Frame [person ''Ann'', person ''Bob'', person ''Cy'']))) + 2 \<le> 3 * 2
   \<and> int (length (occupants 1 (create_day2_seating
        (SeatingPlanGenerator (Frame [person ''Ann'', person ''Bob'', person ''Cy'']) 2 3 2)
        [4, 2, 0, 1, 3]))) \<le> 2
   \<and> map (\<lambda>r. (Name r, Table_No r, Seat_No r)) (iterrows (create_day2_seating
        (SeatingPlanGenerator (Frame [person ''Ann'', person ''Bob'', person ''Cy'']) 2 3 2)
        [4, 2, 0, 1, 3])) =
      [(''Guest 2'', Num 1, Num 1), (''Cy'', Num 1, Num 2), (''Ann'', Num 2, Num 1),
       (''Bob'', Num 2, Num 2), (''Guest 1'', Num 3, Num 1)]"
proof -
  let ?df = "Frame [person ''Ann'', person ''Bob'', person ''Cy'']"
  let ?perm = "[4, 2, 0, 1, 3]"
  have h1: "(0::int) \<le> 2" and h2: "(0::int) \<le> 3" by simp_all
  have h4: "shuffle_outcome ?perm (length (iterrows ?df) + nat 2)"
    unfolding shuffle_outcome_def by code_simp
  have h5: "int (length (iterrows ?df)) + 2 \<le> 3 * 2" by simp
  from plan_within_capacity [OF h1 h2 h1 h4 h5]
  have "int (length (occupants 1 (create_day2_seating (SeatingPlanGenerator ?df 2 3 2) ?perm))) \<le> 2"
    by blast
  moreover have "map (\<lambda>r. (Name r, Table_No r, Seat_No r)) (iterrows (create_day2_seating
        (SeatingPlanGenerator ?df 2 3 2) ?perm)) =
      [(''Guest 2'', Num 1, Num 1), (''Cy'', Num 1, Num 2), (''Ann'', Num 2, Num 1),
       (''Bob'', Num 2, Num 2), (''Guest 1'', Num 3, Num 1)]"
    by code_simp
  ultimately show ?thesis using h1 h2 h4 h5 by blast
qed

text \<open>
  C1, as stated, fails. Twenty roster rows with distinct names, no guests, two tables of five
  seats, dealt in roster order: table 2 ends with exactly five occupants, not more. After the
  table counter has wrapped to 1, the length of table 1 is past \<open>table_size\<close> and the test
  \<^verbatim>\<open>len(tables[table_number]) == self.table_size\<close> never holds again.
\<close>

theorem wraparound_spreads_counterexample:
  "length roster20 = 20
   \<and> distinct (map Name roster20)
   \<and> shuffle_outcome [0..<20] (length roster20 + nat 0)
   \<and> length (occupants 1 (create_day2_seating (SeatingPlanGenerator (Frame roster20) 0 2 5) [0..<20])) = 15
   \<and> length (occupants 2 (create_day2_seating (SeatingPlanGenerator (Frame roster20) 0 2 5) [0..<20])) = 5
   \<and> \<not> (5 < length (occupants 1 (create_day2_seating (SeatingPlanGenerator (Frame roster20) 0 2 5) [0..<20]))
        \<and> 5 < length (occupants 2 (create_day2_seating (SeatingPlanGenerator (Frame roster20) 0 2 5) [0..<20])))"
proof -
  have a: "length roster20 = 20" by code_simp
  have b: "distinct (map Name roster20)" by code_simp
  have c: "shuffle_outcome [0..<20] (length roster20 + nat 0)"
    unfolding a by (simp add: shuffle_outcome_def)
  have d: "length (occupants 1 (create_day2_seating (SeatingPlanGenerator (Frame roster20) 0 2 5) [0..<20])) = 15"
    by code_simp
  have e: "length (occupants 2 (create_day2_seating (SeatingPlanGenerator (Frame roster20) 0 2 5) [0..<20])) = 5"
    by code_simp
  from a b c d e show ?thesis by simp
qed

text \<open>
  C1, amended. For \<open>num_tables \<ge> 1\<close>, \<open>table_size \<ge> 1\<close>, a non-negative guest count and
  \<open>len(R) + num_guests > num_tables * table_size\<close>, every row is dealt and none is dropped;
  the dealing wraps to table 1 only: table 1 receives all
  \<open>len(R) + num_guests - num_tables * table_size\<close> rows beyond the capacity on top of its
  \<open>table_size\<close> rows, each of the tables \<open>2..num_tables\<close> holds exactly \<open>table_size\<close> rows,
  and no other table number is used. In particular, for twenty roster rows, no guests and two
  tables of five seats, all twenty rows are dealt, table 1 ends with fifteen occupants and
  table 2 with five.
\<close>

theorem wraparound_lands_on_table_1:
  assumes "1 \<le> nt" and "1 \<le> ts" and "0 \<le> ng"
    and "shuffle_outcome perm (length (iterrows df) + nat ng)"
    and "nt * ts < int (length (iterrows df)) + ng"
  shows "int (length (iterrows (create_day2_seating (SeatingPlanGenerator df ng nt ts) perm))) =
           int (length (iterrows df)) + ng
       \<and> mset (map unassigned (iterrows (create_day2_seating (SeatingPlanGenerator df ng nt ts) perm))) =
           mset (map unassigned (iterrows df @ iterrows (generate_guests ng)))
       \<and> int (length (occupants 1 (create_day2_seating (SeatingPlanGenerator df ng nt ts) perm))) =
           ts + (int (length (iterrows df)) + ng - nt * ts)
       \<and> (\<forall>k. 2 \<le> k \<and> k \<le> nt \<longrightarrow>
            int (length (occupants k (create_day2_seating (SeatingPlanGenerator df ng nt ts) perm))) = ts)
       \<and> (\<forall>k. k < 1 \<or> nt < k \<longrightarrow>
            occupants k (create_day2_seating (SeatingPlanGenerator df ng nt ts) perm) = [])"
proof -
  let ?g = "SeatingPlanGenerator df ng nt ts"
  let ?xs = "dealt ?g perm"
  let ?plan = "create_day2_seating ?g perm"
  from assms(4)
  have sh: "shuffle_outcome perm (length (iterrows (attendees_df ?g)) + length (iterrows (guests ?g)))"
    by simp
  have len: "length ?xs = length (iterrows df) + nat ng"
    using length_dealt [OF sh] by simp
  have N: "1 \<le> nat nt" using assms(1) by linarith
  have cap: "nat (nt * ts) = nat nt * nat ts"
    using assms(1,2) by (simp add: nat_mult_distrib)
  have "nat c < a + nat ng" if "c < int a + ng" "0 \<le> c" for c :: int and a :: nat
    using that assms(3) by linarith
  moreover from assms(1,2) have "0 \<le> nt * ts" by simp
  ultimately have over: "nat nt * nat ts < length ?xs"
    unfolding cap [symmetric] using assms(5) len by simp
  have occ: "occupants k ?plan = seat_members k (chunk (nat nt) (nat ts) ?xs k)" for k
    using assms(1,2) by (simp add: occupants_members)
  have total: "int (length (iterrows ?plan)) = int (length (iterrows df)) + ng"
    using len assms(3) by (simp add: length_create)
  have rows: "mset (map unassigned (iterrows ?plan)) =
      mset (map unassigned (iterrows df @ iterrows (generate_guests ng)))"
    using mset_dealt [OF sh] unassigned_create [of ?g perm]
    by (metis generator_fields(1) generator_fields(5) mset_map)
  have "int (nat ts + (a - nat c)) = ts + (int a - c)" if "nat c < a" "0 \<le> c" for c :: int and a :: nat
    using that assms(2) by linarith
  from this [of "nt * ts" "length ?xs"] over cap assms(1,2,3) len
  have one: "int (length (occupants 1 ?plan)) = ts + (int (length (iterrows df)) + ng - nt * ts)"
    by (simp add: occ length_chunk_overflow(1) [OF N over])
  have two: "int (length (occupants k ?plan)) = ts" if "2 \<le> k \<and> k \<le> nt" for k
    using that assms(2) by (simp add: occ length_chunk_overflow(2) [OF N over])
  have none: "occupants k ?plan = []" if "k < 1 \<or> nt < k" for k
    using that assms(1) length_chunk_overflow(3) [OF N over, of k] by (auto simp: occ)
  from total rows one two none show ?thesis by blast
qed

text \<open>The scenario of the claim, with the rows dealt in the reverse of the roster order.\<close>

theorem wraparound_lands_on_table_1_witness:
  "(1::int) \<le> 2 \<and> (1::int) \<le> 5 \<and> (0::int) \<le> 0
   \<and> shuffle_outcome (rev [0..<20]) (length (iterrows (Frame roster20)) + nat 0)
   \<and> (2::int) * 5 < int (length (iterrows (Frame roster20))) + 0
   \<and> length (iterrows (create_day2_seating (SeatingPlanGenerator (Frame roster20) 0 2 5) (rev [0..<20]))) = 20
   \<and> length (occupants 1 (create_day2_seating (SeatingPlanGenerator (Frame roster20) 0 2 5) (rev [0..<20]))) = 15
   \<and> length (occupants 2 (create_day2_seating (SeatingPlanGenerator (Frame roster20) 0 2 5) (rev [0..<20]))) = 5"
proof -
  have n: "length (iterrows (Frame roster20)) = 20" by code_simp
  have h1: "(1::int) \<le> 2" and h2: "(1::int) \<le> 5" and h3: "(0::int) \<le> 0" by simp_all
  have h4: "shuffle_outcome (rev [0..<20]) (length (iterrows (Frame roster20)) + nat 0)"
    unfolding n by (simp add: shuffle_outcome_def)
  have h5: "(2::int) * 5 < int (length (iterrows (Frame roster20))) + 0"
    unfolding n by simp
  note t = wraparound_lands_on_table_1 [OF h1 h2 h3 h4 h5]
  from t have "int (length (iterrows (create_day2_seating (SeatingPlanGenerator (Frame roster20) 0 2 5) (rev [0..<20])))) =
      int (length (iterrows (Frame roster20))) + 0"
    by (rule conjunct1)
  then have a: "length (iterrows (create_day2_seating (SeatingPlanGenerator (Frame roster20) 0 2 5) (rev [0..<20]))) = 20"
    unfolding n by simp
  from t have "int (length (occupants 1 (create_day2_seating (SeatingPlanGenerator (Frame roster20) 0 2 5) (rev [0..<20])))) =
      5 + (int (length (iterrows (Frame roster20))) + 0 - 2 * 5)"
    by blast
  then have b: "length (occupants 1 (create_day2_seating (SeatingPlanGenerator (Frame roster20) 0 2 5) (rev [0..<20]))) = 15"
    unfolding n by simp
  from t have "2 \<le> (2::int) \<and> (2::int) \<le> 2 \<longrightarrow>
      int (length (occupants 2 (create_day2_seating (SeatingPlanGenerator (Frame roster20) 0 2 5) (rev [0..<20])))) = 5"
    by blast
  then have c: "length (occupants 2 (create_day2_seating (SeatingPlanGenerator (Frame roster20) 0 2 5) (rev [0..<20]))) = 5"
    by simp
  from h1 h2 h3 h4 h5 a b c show ?thesis by blast
qed

section \<open>Properties of the verification\<close>

lemma count_list_0: "x \<notin> set xs \<Longrightarrow> count_list xs x = 0"
  by (induction xs) auto

lemma count_list_pos: "x \<in> set xs \<Longrightarrow> 0 < count_list xs x"
  by (induction xs) auto

lemma distinct_count_list: "distinct xs \<longleftrightarrow> (\<forall>x. count_list xs x \<le> 1)"
proof (induction xs)
  case Nil
  show ?case by simp
next
  case (Cons a xs)
  show ?case
  proof (cases "a \<in> set xs")
    case True
    then have "\<not> count_list (a # xs) a \<le> 1"
      using count_list_pos [OF True] by simp
    with True show ?thesis by auto
  next
    case False
    then have "count_list (a # xs) x \<le> 1 \<longleftrightarrow> count_list xs x \<le> 1" for x
      by (cases "x = a") (simp_all add: count_list_0)
    with False Cons.IH show ?thesis by simp
  qed
qed

lemma duplicated_rows_Frame:
  "duplicated_rows (Frame rs) = filter (\<lambda>r. 1 < count_list (map Name rs) (Name r)) rs"
  by (simp add: duplicated_rows_def)

lemma duplicated_rows_empty:
  "duplicated_rows (Frame rs) = [] \<longleftrightarrow> distinct (map Name rs)"
proof
  assume e: "duplicated_rows (Frame rs) = []"
  have "count_list (map Name rs) n \<le> 1" for n
  proof (cases "n \<in> set (map Name rs)")
    case True
    then obtain r where "r \<in> set rs" "n = Name r" by auto
    with e show ?thesis
      by (auto simp: duplicated_rows_Frame filter_empty_conv not_less)
  next
    case False
    then show ?thesis by (simp add: count_list_0)
  qed
  then show "distinct (map Name rs)" by (simp add: distinct_count_list)
next
  assume "distinct (map Name rs)"
  then have "count_list (map Name rs) n \<le> 1" for n
    by (simp add: distinct_count_list)
  then show "duplicated_rows (Frame rs) = []"
    by (auto simp: duplicated_rows_Frame filter_empty_conv not_less [symmetric])
qed


lemma set_unique_from: "set (unique_from seen xs) = set xs - set seen"
  by (induction xs arbitrary: seen) auto

lemma distinct_unique_from: "distinct (unique_from seen xs)"
  by (induction xs arbitrary: seen) (auto simp: set_unique_from)


lemma distinct_unique [simp]: "distinct (unique xs)"
  by (simp add: unique_def distinct_unique_from)


lemma verify_no_duplicates:
  assumes "distinct (map Name rs)" and "attendees_df g = Frame roster"
  shows "verify_seating_plan g set_iter (Frame rs) =
           (if set (map Name roster) - set (map Name rs) \<noteq> {}
            then Inr (False, ''Missing participants from Day 1: '' @
                  join '', '' (set_iter (set (map Name roster) - set (map Name rs))))
            else Inr (True, ''Seating plan is valid.''))"
  using assms by (simp add: verify_seating_plan_def Let_def duplicated_rows_empty)




lemma Name_unassigned [simp]: "Name (unassigned r) = Name r"
  by (simp add: unassigned_def)

lemma names_create:
  assumes "shuffle_outcome perm (length (iterrows (attendees_df g)) + length (iterrows (guests g)))"
  shows "mset (map Name (iterrows (create_day2_seating g perm))) =
         mset (map Name (iterrows (attendees_df g) @ iterrows (guests g)))"
proof -
  have "mset (map unassigned (iterrows (create_day2_seating g perm))) =
        mset (map unassigned (iterrows (attendees_df g) @ iterrows (guests g)))"
    using mset_dealt [OF assms] unassigned_create [of g perm] by (metis mset_map)
  then have "image_mset Name (mset (map unassigned (iterrows (create_day2_seating g perm)))) =
        image_mset Name (mset (map unassigned (iterrows (attendees_df g) @ iterrows (guests g))))"
    by simp
  then show ?thesis
    by (simp add: image_mset.compositionality comp_def del: map_append)
qed

lemma create_is_Frame:
  assumes "dealt g perm \<noteq> []"
  shows "create_day2_seating g perm = Frame (iterrows (create_day2_seating g perm))"
proof -
  from assms have "iterrows (create_day2_seating g perm) \<noteq> []"
    using length_create [of g perm] by (metis length_0_conv)
  then show ?thesis
    by (simp add: create_day2_seating_def Let_def pd_DataFrame_def split: if_splits)
qed

lemma guest_labels:
  "set (map Name (iterrows (generate_guests ng))) = {''Guest '' @ str_int i | i. 1 \<le> i \<and> i \<le> ng}"
  by (auto simp: iterrows_generate_guests guest_def)

text \<open>
  C2, as stated, fails: a roster without duplicate names may contain a name that is also a
  guest label. With the single roster row named \<open>Guest 1\<close> and the default configuration the
  plan holds that name twice, and the verification reports the duplicate. Apart from that,
  for a roster without rows and no guests the plan is the frame without columns, and
  the verification does not return at all: the lookup of its \<open>Name\<close> column raises.
\<close>

theorem unique_roster_verifies_counterexample:
  "distinct (map Name [person ''Guest 1''])
   \<and> shuffle_outcome [0..<8] (length [person ''Guest 1''] + nat 7)
   \<and> verify_seating_plan (SeatingPlanGenerator (Frame [person ''Guest 1'']) 7 9 7) sorted_iter
        (create_day2_seating (SeatingPlanGenerator (Frame [person ''Guest 1'']) 7 9 7) [0..<8]) =
      Inr (False, ''Duplicate entries found: Guest 1'')
   \<and> verify_seating_plan (SeatingPlanGenerator (Frame []) 0 9 7) sorted_iter
        (create_day2_seating (SeatingPlanGenerator (Frame []) 0 9 7) []) =
      Inl (KeyError ''Name'')"
proof -
  have a: "distinct (map Name [person ''Guest 1''])" by simp
  have b: "shuffle_outcome [0..<8] (length [person ''Guest 1''] + nat 7)"
    by (simp add: shuffle_outcome_def)
  have c: "verify_seating_plan (SeatingPlanGenerator (Frame [person ''Guest 1'']) 7 9 7) sorted_iter
        (create_day2_seating (SeatingPlanGenerator (Frame [person ''Guest 1'']) 7 9 7) [0..<8]) =
      Inr (False, ''Duplicate entries found: Guest 1'')"
    by code_simp
  have d: "verify_seating_plan (SeatingPlanGenerator (Frame []) 0 9 7) sorted_iter
        (create_day2_seating (SeatingPlanGenerator (Frame []) 0 9 7) []) =
      Inl (KeyError ''Name'')"
    by code_simp
  from a b c d show ?thesis by blast
qed

text \<open>
  C2, amended. For every roster whose names contain no duplicates and none of which is one
  of the guest labels \<open>Guest 1\<close>, ..., \<open>Guest num_guests\<close>, and for every shuffle outcome,
  \<^verbatim>\<open>create_day2_seating\<close> followed by \<^verbatim>\<open>verify_seating_plan\<close> returns the success, provided
  the plan has at least one row (a roster row or a guest).
\<close>

theorem unique_roster_verifies:
  assumes "distinct (map Name rs)"
    and "set (map Name rs) \<inter> {''Guest '' @ str_int i | i. 1 \<le> i \<and> i \<le> ng} = {}"
    and "shuffle_outcome perm (length rs + nat ng)"
    and "rs \<noteq> [] \<or> 1 \<le> ng"
  shows "verify_seating_plan (SeatingPlanGenerator (Frame rs) ng nt ts) set_iter
           (create_day2_seating (SeatingPlanGenerator (Frame rs) ng nt ts) perm) =
         Inr (True, ''Seating plan is valid.'')"
proof -
  let ?g = "SeatingPlanGenerator (Frame rs) ng nt ts"
  let ?plan = "iterrows (create_day2_seating ?g perm)"
  from assms(3)
  have sh: "shuffle_outcome perm (length (iterrows (attendees_df ?g)) + length (iterrows (guests ?g)))"
    by simp
  have names: "mset (map Name ?plan) = mset (map Name (rs @ iterrows (generate_guests ng)))"
    using names_create [OF sh] by simp
  from assms(2) have "set (map Name rs) \<inter> set (map Name (iterrows (generate_guests ng))) = {}"
    by (simp only: guest_labels)
  then have "distinct (map Name (rs @ iterrows (generate_guests ng)))"
    using assms(1) distinct_guest_names [of ng] by simp
  with names have dist: "distinct (map Name ?plan)"
    by (metis mset_eq_imp_distinct_iff)
  from names have "set (map Name ?plan) = set (map Name (rs @ iterrows (generate_guests ng)))"
    by (rule mset_eq_setD)
  then have sub: "set (map Name rs) \<subseteq> set (map Name ?plan)" by auto
  from assms(4) have "length rs + nat ng \<noteq> 0" by auto
  then have "dealt ?g perm \<noteq> []"
    using length_dealt [OF sh] by auto
  then have frame: "create_day2_seating ?g perm = Frame ?plan" by (rule create_is_Frame)
  have "verify_seating_plan ?g set_iter (Frame ?plan) =
      (if set (map Name rs) - set (map Name ?plan) \<noteq> {}
       then Inr (False, ''Missing participants from Day 1: '' @
               join '', '' (set_iter (set (map Name rs) - set (map Name ?plan))))
       else Inr (True, ''Seating plan is valid.''))"
    by (rule verify_no_duplicates [OF dist]) simp
  with sub have "verify_seating_plan ?g set_iter (Frame ?plan) = Inr (True, ''Seating plan is valid.'')"
    by auto
  with frame show ?thesis by simp
qed

text \<open>Alice, Bob and Carol with the default configuration: ten rows, and a valid plan.\<close>

theorem unique_roster_verifies_witness:
  "verify_seating_plan
     (SeatingPlanGenerator (Frame [person ''Alice'', person ''Bob'', person ''Carol'']) 7 9 7) sorted_iter
     (create_day2_seating
        (SeatingPlanGenerator (Frame [person ''Alice'', person ''Bob'', person ''Carol'']) 7 9 7)
        [9, 3, 0, 7, 1, 8, 2, 6, 5, 4]) =
   Inr (True, ''Seating plan is valid.'')
   \<and> length (iterrows (create_day2_seating
        (SeatingPlanGenerator (Frame [person ''Alice'', person ''Bob'', person ''Carol'']) 7 9 7)
        [9, 3, 0, 7, 1, 8, 2, 6, 5, 4])) = 10"
proof -
  let ?rs = "[person ''Alice'', person ''Bob'', person ''Carol'']"
  have h1: "distinct (map Name ?rs)" by code_simp
  have h2: "set (map Name ?rs) \<inter> {''Guest '' @ str_int i | i. 1 \<le> i \<and> i \<le> 7} = {}"
    by (auto simp: person_def)
  have h3: "shuffle_outcome [9, 3, 0, 7, 1, 8, 2, 6, 5, 4] (length ?rs + nat 7)"
    unfolding shuffle_outcome_def by code_simp
  have h4: "?rs \<noteq> [] \<or> (1::int) \<le> 7" by simp
  have "length (iterrows (create_day2_seating (SeatingPlanGenerator (Frame ?rs) 7 9 7)
        [9, 3, 0, 7, 1, 8, 2, 6, 5, 4])) = 10"
    by code_simp
  with unique_roster_verifies [OF h1 h2 h3 h4, of 9 7 sorted_iter] show ?thesis by blast
qed

section \<open>Properties of the request handler\<close>




section \<open>Properties of the assignor over the store\<close>

lemma seat_step:
  assumes "member < length h"
  shows "set_Seat_No (set_Table_No (h @ [h ! member]) (length h) t) (length h) s =
         h @ [(h ! member)\<lparr>Table_No := Num t, Seat_No := Num s\<rparr>]"
  by (simp add: set_Seat_No_def set_Table_No_def nth_append)

lemma seat_loop_store:
  assumes "\<forall>m \<in> set members. m < length h"
  shows "seat_loop t n members (h, acc) =
         (h @ map (\<lambda>(s, m). (h ! m)\<lparr>Table_No := Num t, Seat_No := Num (int s)\<rparr>) (enumerate n members),
          acc @ [length h..<length h + length members])"
  using assms
proof (induction members arbitrary: h acc n)
  case Nil
  show ?case by simp
next
  case (Cons member members)
  let ?h = "h @ [(h ! member)\<lparr>Table_No := Num t, Seat_No := Num (int n)\<rparr>]"
  from Cons.prems have m: "member < length h" and ms: "\<forall>m \<in> set members. m < length ?h"
    by auto
  from Cons.prems have same: "\<forall>m \<in> set members. ?h ! m = h ! m"
    by (auto simp: nth_append)
  have "seat_loop t n (member # members) (h, acc) =
        seat_loop t (Suc n) members (?h, acc @ [length h])"
    by (simp add: copy_row_def seat_step [OF m])
  also have "\<dots> = (?h @ map (\<lambda>(s, m). (?h ! m)\<lparr>Table_No := Num t, Seat_No := Num (int s)\<rparr>)
                          (enumerate (Suc n) members),
                    (acc @ [length h]) @ [length ?h..<length ?h + length members])"
    by (rule Cons.IH [OF ms])
  also have "map (\<lambda>(s, m). (?h ! m)\<lparr>Table_No := Num t, Seat_No := Num (int s)\<rparr>) (enumerate (Suc n) members) =
             map (\<lambda>(s, m). (h ! m)\<lparr>Table_No := Num t, Seat_No := Num (int s)\<rparr>) (enumerate (Suc n) members)"
    using same by (auto simp: in_set_enumerate_eq)
  finally show ?case
    by (simp add: upt_conv_Cons del: upt_Suc)
qed

lemma seat_members_store:
  "map (\<lambda>(s, m). (h ! m)\<lparr>Table_No := Num t, Seat_No := Num (int s)\<rparr>) (enumerate 1 ms) =
   seat_members t (map (\<lambda>m. h ! m) ms)"
  by (rule nth_equalityI) (simp_all add: nth_seat_members nth_enumerate_eq)

lemma upt_chain: "[a..<a + b] @ [a + b..<a + (b + c)] = [a..<a + (b + c)]"
  using upt_add_eq_append [of a "a + b" c] by (simp add: add.assoc)

lemma table_loop_store:
  assumes "\<forall>m \<in> set (concat (map snd tbl)). m < length h"
  shows "table_loop tbl (h, acc) =
         (h @ concat (map (\<lambda>(t, ms). seat_members t (map (\<lambda>m. h ! m) ms)) tbl),
          acc @ [length h..<length h + length (concat (map snd tbl))])"
  using assms
proof (induction tbl arbitrary: h acc)
  case Nil
  show ?case by simp
next
  case (Cons p tbl)
  obtain t ms where p: "p = (t, ms)" by (cases p)
  let ?h = "h @ seat_members t (map (\<lambda>m. h ! m) ms)"
  from Cons.prems p have ms: "\<forall>m \<in> set ms. m < length h"
    and rest: "\<forall>m \<in> set (concat (map snd tbl)). m < length h"
    by auto
  have rest': "\<forall>m \<in> set (concat (map snd tbl)). m < length ?h"
  proof
    fix m assume "m \<in> set (concat (map snd tbl))"
    with rest have "m < length h" by blast
    then show "m < length ?h" by simp
  qed
  have same: "map (\<lambda>m. ?h ! m) ns = map (\<lambda>m. h ! m) ns" if "(u, ns) \<in> set tbl" for u ns
    using that rest by (auto simp: nth_append)
  have s1: "table_loop (p # tbl) (h, acc) =
        table_loop tbl (?h, acc @ [length h..<length h + length ms])"
    by (simp add: p seat_loop_store [OF ms] seat_members_store [unfolded One_nat_def])
  have s2: "table_loop tbl (?h, acc @ [length h..<length h + length ms]) =
      (?h @ concat (map (\<lambda>(t, ms). seat_members t (map (\<lambda>m. ?h ! m) ms)) tbl),
      (acc @ [length h..<length h + length ms]) @
        [length ?h..<length ?h + length (concat (map snd tbl))])"
    by (rule Cons.IH [OF rest'])
  have c: "map (\<lambda>(t, ms). seat_members t (map (\<lambda>m. ?h ! m) ms)) tbl =
             map (\<lambda>(t, ms). seat_members t (map (\<lambda>m. h ! m) ms)) tbl"
  proof (rule map_cong [OF refl])
    fix q assume q: "q \<in> set tbl"
    obtain u ns where e: "q = (u, ns)" by (cases q)
    with q have "(u, ns) \<in> set tbl" by simp
    from same [OF this]
    show "(case q of (t, ms) \<Rightarrow> seat_members t (map (\<lambda>m. ?h ! m) ms)) =
          (case q of (t, ms) \<Rightarrow> seat_members t (map (\<lambda>m. h ! m) ms))"
      by (simp only: e prod.case)
  qed
  show ?case
    unfolding s1 s2 c by (simp add: p add.assoc upt_chain)
qed

lemma shuffle_in_range:
  assumes "shuffle_outcome perm n"
  shows "\<forall>i \<in> set perm. i < n"
proof -
  from assms have "set perm = set [0..<n]"
    unfolding shuffle_outcome_def by (rule mset_eq_setD)
  then show ?thesis by auto
qed

lemma map_nth_from: "map (\<lambda>i. xs ! i) [a..<length xs] = drop a xs"
  by (rule nth_equalityI) simp_all

lemma seated_tables_map:
  "concat (map (\<lambda>(t, ms). seat_members t ms) (map (apsnd (map f)) tbl)) =
   concat (map (\<lambda>(t, ms). seat_members t (map f ms)) tbl)"
  by (induction tbl) auto

lemma length_seated_tables:
  "length (concat (map (\<lambda>(t, ms). seat_members t (map f ms)) tbl)) =
   length (concat (map snd tbl))"
  by (induction tbl) auto

text \<open>
  C9. \<^verbatim>\<open>create_day2_seating\<close> leaves the roster unchanged. Over the store of row objects:
  every object that exists before the call, so every row object of the roster, has the same
  fields after it; the plan consists of objects that did not exist before the call; and
  these objects hold exactly the rows that the value model of \<^verbatim>\<open>create_day2_seating\<close>
  returns for the rows of the roster and of the guests.
\<close>

theorem roster_not_mutated:
  assumes "\<forall>a \<in> set attendees \<union> set guest_rows. a < length h"
    and "shuffle_outcome perm (length attendees + length guest_rows)"
    and "create_day2_seating_st h attendees guest_rows nt ts perm = (h', plan)"
  shows "take (length h) h' = h
       \<and> map (\<lambda>a. h' ! a) attendees = map (\<lambda>a. h ! a) attendees
       \<and> plan = [length h..<length h']
       \<and> map (\<lambda>a. h' ! a) plan =
           iterrows (create_day2_seating
             \<lparr> attendees_df = Frame (map (\<lambda>a. h ! a) attendees), num_guests = ng,
               num_tables = nt, table_size = ts,
               guests = Frame (map (\<lambda>a. h ! a) guest_rows) \<rparr> perm)"
proof -
  let ?combined = "attendees @ guest_rows"
  let ?shuffled = "map (\<lambda>i. ?combined ! i) perm"
  let ?T = "fst (deal nt ts ?shuffled ([], 1))"
  let ?new = "concat (map (\<lambda>(t, ms). seat_members t (map (\<lambda>m. h ! m) ms)) ?T)"
  let ?g = "\<lparr> attendees_df = Frame (map (\<lambda>a. h ! a) attendees), num_guests = ng,
               num_tables = nt, table_size = ts,
               guests = Frame (map (\<lambda>a. h ! a) guest_rows) \<rparr>"
  have range: "\<forall>i \<in> set perm. i < length ?combined"
    using shuffle_in_range [OF assms(2)] by simp
  have sh: "\<forall>m \<in> set ?shuffled. m < length h"
  proof
    fix m assume "m \<in> set ?shuffled"
    then obtain i where "i \<in> set perm" and m: "m = ?combined ! i" by auto
    with range have "i < length ?combined" by blast
    then have "?combined ! i \<in> set ?combined" by (rule nth_mem)
    with assms(1) m show "m < length h" by simp
  qed
  have "set (concat (map snd ?T)) = set_mset (mset (concat (map snd ?T)))" by simp
  also have "\<dots> = set ?shuffled" by (simp only: deal_mset) simp
  finally have "\<forall>m \<in> set (concat (map snd ?T)). m < length h"
    using sh by simp
  from table_loop_store [OF this, of "[]"] assms(3)
  have h': "h' = h @ ?new" and plan: "plan = [length h..<length h + length (concat (map snd ?T))]"
    by (simp_all add: create_day2_seating_st_def Let_def)
  have len: "length h' = length h + length (concat (map snd ?T))"
    by (simp only: h' length_append length_seated_tables)
  have frame: "take (length h) h' = h" by (simp add: h')
  have roster: "map (\<lambda>a. h' ! a) attendees = map (\<lambda>a. h ! a) attendees"
    using assms(1) by (simp add: h' nth_append)
  have fresh: "plan = [length h..<length h']" by (simp only: plan len)
  have "map (\<lambda>a. h' ! a) plan = drop (length h) h'"
    unfolding fresh by (rule map_nth_from)
  also have "\<dots> = ?new" by (simp add: h')
  finally have rows: "map (\<lambda>a. h' ! a) plan = ?new" .
  have "dealt ?g perm = map (\<lambda>i. map (\<lambda>a. h ! a) ?combined ! i) perm"
    by (simp add: dealt_def del: map_append) simp
  also have "\<dots> = map (\<lambda>m. h ! m) ?shuffled"
  proof -
    have "map (\<lambda>a. h ! a) ?combined ! i = h ! (?combined ! i)" if "i \<in> set perm" for i
      using that range by (intro nth_map) blast
    then show ?thesis by (simp del: map_append)
  qed
  finally have dealt: "dealt ?g perm = map (\<lambda>m. h ! m) ?shuffled" .
  have "deal nt ts (map (\<lambda>m. h ! m) ?shuffled) (map (apsnd (map (\<lambda>m. h ! m))) [], 1) =
        map_prod (map (apsnd (map (\<lambda>m. h ! m)))) id (deal nt ts ?shuffled ([], 1))"
    by (rule deal_map)
  then have e2: "fst (deal nt ts (dealt ?g perm) ([], 1)) = map (apsnd (map (\<lambda>m. h ! m))) ?T"
    by (simp add: dealt)
  have e1: "iterrows (create_day2_seating ?g perm) =
      concat (map (\<lambda>(t, ms). seat_members t ms) (fst (deal nt ts (dealt ?g perm) ([], 1))))"
    by (simp add: iterrows_create)
  have "iterrows (create_day2_seating ?g perm) = ?new"
    by (simp only: e1 e2 seated_tables_map)
  with rows have refine: "map (\<lambda>a. h' ! a) plan = iterrows (create_day2_seating ?g perm)"
    by simp
  from frame roster fresh refine show ?thesis by blast
qed

text \<open>
  A store with three roster rows and two guests, dealt on two tables of two seats: the five
  old objects are as before, and the plan is the five new objects.
\<close>

theorem roster_not_mutated_witness:
  "take 5 (fst (create_day2_seating_st
       [person ''Ann'', person ''Bob'', person ''Cy'', guest 1, guest 2]
       [0, 1, 2] [3, 4] 2 2 [4, 2, 0, 1, 3])) =
     [person ''Ann'', person ''Bob'', person ''Cy'', guest 1, guest 2]
   \<and> snd (create_day2_seating_st
       [person ''Ann'', person ''Bob'', person ''Cy'', guest 1, guest 2]
       [0, 1, 2] [3, 4] 2 2 [4, 2, 0, 1, 3]) = [5, 6, 7, 8, 9]
   \<and> map (\<lambda>r. (Name r, Table_No r, Seat_No r)) (drop 5 (fst (create_day2_seating_st
       [person ''Ann'', person ''Bob'', person ''Cy'', guest 1, guest 2]
       [0, 1, 2] [3, 4] 2 2 [4, 2, 0, 1, 3]))) =
     [(''Guest 2'', Num 1, Num 1), (''Cy'', Num 1, Num 2), (''Guest 1'', Num 1, Num 3),
      (''Ann'', Num 2, Num 1), (''Bob'', Num 2, Num 2)]"
proof -
  let ?h = "[person ''Ann'', person ''Bob'', person ''Cy'', guest 1, guest 2]"
  let ?r = "create_day2_seating_st ?h [0, 1, 2] [3, 4] 2 2 [4, 2, 0, 1, 3]"
  have h1: "\<forall>a \<in> set [0, 1, 2] \<union> set [3, 4]. a < length ?h" by simp
  have h2: "shuffle_outcome [4, 2, 0, 1, 3] (length [0::nat, 1, 2] + length [3::nat, 4])"
    unfolding shuffle_outcome_def by code_simp
  have h3: "?r = (fst ?r, snd ?r)" by simp
  note t = roster_not_mutated [OF h1 h2 h3, of 0]
  have n: "length (fst ?r) = 10" by code_simp
  have l: "length ?h = 5" by simp
  have u: "[5..<10] = [5::nat, 6, 7, 8, 9]" by code_simp
  from t have a: "take 5 (fst ?r) = ?h"
    unfolding l by (rule conjunct1)
  from t have "snd ?r = [5..<10]"
    unfolding l n by blast
  then have b: "snd ?r = [5, 6, 7, 8, 9]" by (simp only: u)
  have c: "map (\<lambda>r. (Name r, Table_No r, Seat_No r)) (drop 5 (fst ?r)) =
     [(''Guest 2'', Num 1, Num 1), (''Cy'', Num 1, Num 2), (''Guest 1'', Num 1, Num 3),
      (''Ann'', Num 2, Num 1), (''Bob'', Num 2, Num 2)]"
    by code_simp
  from a b c show ?thesis by blast
qed

end
